theory Spec2Isabelle
  imports Complex_Main
begin

section \<open>Python strings and the library functions used by \<^verbatim>\<open>chunk_text.py\<close>\<close>

text \<open>
  A Python \<^verbatim>\<open>str\<close> is a sequence of Unicode code points. A code point is modelled as
  the integer that \<^verbatim>\<open>ord\<close> returns and a string as a list of code points, so that
  \<open>length\<close> counts what Python's \<^verbatim>\<open>len\<close> counts. String literals are written
  \<open>py ''...''\<close>.
\<close>

type_synonym codepoint = int
type_synonym pystr = "codepoint list"

definition py :: "string \<Rightarrow> pystr" where
  "py s = map of_char s"

text \<open>
  \<^verbatim>\<open>str.isspace\<close> on one code point. \<^verbatim>\<open>str.strip()\<close>, \<^verbatim>\<open>str.split()\<close> and the
  class \<^verbatim>\<open>\s\<close> of \<^verbatim>\<open>re\<close> on \<^verbatim>\<open>str\<close> patterns all use this one predicate:
  U+0009..U+000D, U+001C..U+0020, U+0085, U+00A0, U+1680, U+2000..U+200A, U+2028,
  U+2029, U+202F, U+205F, U+3000.
\<close>

definition isspace :: "codepoint \<Rightarrow> bool" where
  "isspace c \<longleftrightarrow>
     (9 \<le> c \<and> c \<le> 13) \<or> (28 \<le> c \<and> c \<le> 32) \<or> c = 133 \<or> c = 160 \<or> c = 5760 \<or>
     (8192 \<le> c \<and> c \<le> 8202) \<or> c = 8232 \<or> c = 8233 \<or> c = 8239 \<or> c = 8287 \<or> c = 12288"

text \<open>The space character U+0020 and the character class \<^verbatim>\<open>[.!?]\<close>.\<close>

definition SP :: codepoint where
  "SP = 32"

definition is_terminal :: "codepoint \<Rightarrow> bool" where
  "is_terminal c \<longleftrightarrow> c = 46 \<or> c = 33 \<or> c = 63"

text \<open>\<^verbatim>\<open>text.strip()\<close>: drop the leading and the trailing whitespace.\<close>

definition strip :: "pystr \<Rightarrow> pystr" where
  "strip t = rev (dropWhile isspace (rev (dropWhile isspace t)))"

text \<open>
  \<^verbatim>\<open>re.sub(r"\s+", " ", t)\<close>: every maximal run of whitespace is replaced by one
  space, everything else is copied.
\<close>

function re_sub_ws :: "pystr \<Rightarrow> pystr" where
  "re_sub_ws [] = []"
| "re_sub_ws (c # cs) =
     (if isspace c then SP # re_sub_ws (dropWhile isspace cs) else c # re_sub_ws cs)"
  by pat_completeness auto
termination
  by (relation "measure length") (auto simp: le_imp_less_Suc length_dropWhile_le)

text \<open>
  \<^verbatim>\<open>re.split(r"(?<=[.!?])\s+", t)\<close>: a match starts right after one of \<^verbatim>\<open>.!?\<close> and
  takes the maximal run of whitespace that follows it. The pieces between the matches
  are returned, the matched whitespace is not; the text after the last match is the
  last piece (the empty string when the text ends with a match, and \<^verbatim>\<open>['']\<close> for the
  empty text).
\<close>

function re_split_terminal :: "pystr \<Rightarrow> pystr list" where
  "re_split_terminal [] = [[]]"
| "re_split_terminal (c # cs) =
     (if is_terminal c \<and> cs \<noteq> [] \<and> isspace (hd cs)
      then [c] # re_split_terminal (dropWhile isspace cs)
      else (case re_split_terminal cs of
              [] \<Rightarrow> [[c]]
            | p # ps \<Rightarrow> (c # p) # ps))"
  by pat_completeness auto
termination
  by (relation "measure length") (auto simp: le_imp_less_Suc length_dropWhile_le)

text \<open>
  \<^verbatim>\<open>sentence.split()\<close>: the maximal runs of non-whitespace, in order; no empty
  strings.
\<close>

function split_ws :: "pystr \<Rightarrow> pystr list" where
  "split_ws [] = []"
| "split_ws (c # cs) =
     (if isspace c then split_ws cs
      else (c # takeWhile (\<lambda>x. \<not> isspace x) cs) # split_ws (dropWhile (\<lambda>x. \<not> isspace x) cs))"
  by pat_completeness auto
termination
  by (relation "measure length") (auto simp: le_imp_less_Suc length_dropWhile_le)

text \<open>\<^verbatim>\<open>" ".join(xs)\<close>.\<close>

fun join_sp :: "pystr list \<Rightarrow> pystr" where
  "join_sp [] = []"
| "join_sp [x] = x"
| "join_sp (x # y # ys) = x @ SP # join_sp (y # ys)"

text \<open>
  \<^verbatim>\<open>xs[lo:hi]\<close>: a negative index counts from the end, and both indices are clamped
  to the list.
\<close>

definition py_slice :: "'a list \<Rightarrow> int \<Rightarrow> int \<Rightarrow> 'a list" where
  "py_slice xs lo hi =
     (let n = int (length xs);
          l = (if lo < 0 then max 0 (n + lo) else min lo n);
          h = (if hi < 0 then max 0 (n + hi) else min hi n)
      in take (nat h - nat l) (drop (nat l) xs))"

datatype error = ValueError

text \<open>
  \<^verbatim>\<open>range(start, stop, step)\<close> as the list of its values. A zero step raises
  \<^verbatim>\<open>ValueError\<close>.
\<close>

function range_up :: "int \<Rightarrow> int \<Rightarrow> int \<Rightarrow> int list" where
  "range_up i stop step =
     (if 0 < step \<and> i < stop then i # range_up (i + step) stop step else [])"
  by pat_completeness auto
termination
  by (relation "measure (\<lambda>(i, stop, step). nat (stop - i))") auto

function range_down :: "int \<Rightarrow> int \<Rightarrow> int \<Rightarrow> int list" where
  "range_down i stop step =
     (if step < 0 \<and> stop < i then i # range_down (i + step) stop step else [])"
  by pat_completeness auto
termination
  by (relation "measure (\<lambda>(i, stop, step). nat (i - stop))") auto

definition py_range :: "int \<Rightarrow> int \<Rightarrow> int \<Rightarrow> error + int list" where
  "py_range start stop step =
     (if step = 0 then Inl ValueError
      else if 0 < step then Inr (range_up start stop step)
      else Inr (range_down start stop step))"

section \<open>The sentence splitter\<close>

text \<open>
  \<^verbatim>\<open>
  def split_sentences(text):
      text = re.sub(r"\s+", " ", text.strip())
      if not text:
          return []
      return re.split(r"(?<=[.!?])\s+", text)
  \<close>
\<close>

definition split_sentences :: "pystr \<Rightarrow> pystr list" where
  "split_sentences text =
     (let text1 = re_sub_ws (strip text)
      in if text1 = [] then [] else re_split_terminal text1)"

section \<open>The chunk packer\<close>

text \<open>
  The local variables \<^verbatim>\<open>chunks\<close>, \<^verbatim>\<open>current\<close> and \<^verbatim>\<open>word_count\<close> of
  \<^verbatim>\<open>chunk_text\<close>, which the nested function \<^verbatim>\<open>flush\<close> and the loop body update.
\<close>

record packer =
  chunks :: "pystr list"
  current :: "pystr list"
  word_count :: int

definition init :: packer where
  "init = \<lparr>chunks = [], current = [], word_count = 0\<rparr>"

text \<open>
  \<^verbatim>\<open>
  def flush():
      nonlocal current, word_count
      if current:
          chunks.append(" ".join(current).strip())
      current = []
      word_count = 0
  \<close>
\<close>

definition flush :: "packer \<Rightarrow> packer" where
  "flush st =
     \<lparr>chunks = (if current st \<noteq> [] then chunks st @ [strip (join_sp (current st))]
                else chunks st),
      current = [],
      word_count = 0\<rparr>"

text \<open>
  The inner loop of the oversized-sentence path, over the values \<open>is\<close> of
  \<^verbatim>\<open>range(0, len(words), max_words)\<close>:
  \<^verbatim>\<open>
  part = " ".join(words[i:i + max_words]).strip()
  if part:
      chunks.append(part)
  \<close>
\<close>

fun emit_windows :: "pystr list \<Rightarrow> int \<Rightarrow> int list \<Rightarrow> pystr list \<Rightarrow> pystr list" where
  "emit_windows words max_words [] cks = cks"
| "emit_windows words max_words (i # is) cks =
     (let part = strip (join_sp (py_slice words i (i + max_words)))
      in emit_windows words max_words is (if part \<noteq> [] then cks @ [part] else cks))"

text \<open>One iteration of \<^verbatim>\<open>for sentence in sentences\<close> (lines 28 to 44).\<close>

definition step :: "int \<Rightarrow> int \<Rightarrow> pystr \<Rightarrow> packer \<Rightarrow> error + packer" where
  "step min_words max_words sentence st =
     (let words = split_ws sentence in
      if int (length words) > max_words then
        (let st1 = (if current st \<noteq> [] then flush st else st) in
         case py_range 0 (int (length words)) max_words of
           Inl e \<Rightarrow> Inl e
         | Inr is \<Rightarrow> Inr (st1\<lparr>chunks := emit_windows words max_words is (chunks st1)\<rparr>))
      else
        (let st1 = (if word_count st + int (length words) > max_words
                    then (if word_count st \<ge> min_words then flush st else flush st)
                    else st)
         in Inr (st1\<lparr>current := current st1 @ [sentence],
                      word_count := word_count st1 + int (length words)\<rparr>)))"

text \<open>The loop over the sentences; an exception ends it.\<close>

fun pack :: "int \<Rightarrow> int \<Rightarrow> pystr list \<Rightarrow> packer \<Rightarrow> error + packer" where
  "pack min_words max_words [] st = Inr st"
| "pack min_words max_words (s # ss) st =
     (case step min_words max_words s st of
        Inl e \<Rightarrow> Inl e
      | Inr st1 \<Rightarrow> pack min_words max_words ss st1)"

text \<open>
  Lines 16 to 49 of \<^verbatim>\<open>chunk_text\<close>: the loop from the initial state, the last flush
  and the returned \<^verbatim>\<open>chunks\<close>.
\<close>

definition chunk_sentences :: "int \<Rightarrow> int \<Rightarrow> pystr list \<Rightarrow> error + pystr list" where
  "chunk_sentences min_words max_words sentences =
     (case pack min_words max_words sentences init of
        Inl e \<Rightarrow> Inl e
      | Inr st \<Rightarrow> Inr (chunks (if current st \<noteq> [] then flush st else st)))"

definition chunk_text :: "pystr \<Rightarrow> int \<Rightarrow> int \<Rightarrow> error + pystr list" where
  "chunk_text text min_words max_words =
     chunk_sentences min_words max_words (split_sentences text)"

section \<open>Auxiliary notions for the proofs\<close>

text \<open>A word as \<^verbatim>\<open>str.split()\<close> returns it: not empty and free of whitespace.\<close>

definition wordlike :: "pystr \<Rightarrow> bool" where
  "wordlike w \<longleftrightarrow> w \<noteq> [] \<and> (\<forall>c\<in>set w. \<not> isspace c)"

text \<open>A non-empty string that is its own words joined by single spaces: no whitespace at
  the ends, and no whitespace inside but single spaces.\<close>

definition clean :: "pystr \<Rightarrow> bool" where
  "clean s \<longleftrightarrow> s \<noteq> [] \<and> join_sp (split_ws s) = s"

text \<open>A clean string that the splitting after terminal punctuation leaves whole.\<close>

definition single_sentence :: "pystr \<Rightarrow> bool" where
  "single_sentence s \<longleftrightarrow> clean s \<and> re_split_terminal s = [s]"

text \<open>A run of consecutive sentences of one text: each a single sentence, each but the
  last ending with terminal punctuation.\<close>

definition good_seq :: "pystr list \<Rightarrow> bool" where
  "good_seq X \<longleftrightarrow>
     (\<forall>s\<in>set X. single_sentence s) \<and> (\<forall>s\<in>set (butlast X). is_terminal (last s))"

text \<open>The consecutive blocks of \<open>k\<close> elements of a list, the last one possibly shorter.\<close>

function chop :: "nat \<Rightarrow> 'a list \<Rightarrow> 'a list list" where
  "chop k xs = (if k = 0 \<or> xs = [] then [] else take k xs # chop k (drop k xs))"
  by pat_completeness auto
termination
  by (relation "measure (\<lambda>(k, xs). length xs)") auto

declare chop.simps [simp del]
declare range_up.simps [simp del]
declare range_down.simps [simp del]

text \<open>The chunks that lines 32 to 35 of \<^verbatim>\<open>chunk_text\<close> append for a sentence when
  \<^verbatim>\<open>max_words\<close> is positive, where \<^verbatim>\<open>range(0, len(words), max_words)\<close> counts up.\<close>

definition oversized_parts :: "pystr \<Rightarrow> int \<Rightarrow> pystr list" where
  "oversized_parts s m =
     emit_windows (split_ws s) m (range_up 0 (int (length (split_ws s))) m) []"

text \<open>Lines 30 and 31, and 46 and 47: \<^verbatim>\<open>if current: flush()\<close>.\<close>

definition flush_if_any :: "packer \<Rightarrow> packer" where
  "flush_if_any st = (if current st \<noteq> [] then flush st else st)"

text \<open>The number of words of a list of sentences.\<close>

definition wsum :: "pystr list \<Rightarrow> int" where
  "wsum X = int (length (concat (map split_ws X)))"

text \<open>The words of a state: those of its chunks, then those of its accumulator.\<close>

definition out_words :: "packer \<Rightarrow> pystr list" where
  "out_words st = concat (map split_ws (chunks st)) @ concat (map split_ws (current st))"

text \<open>The invariant of the loop for the bound: every chunk has at most \<open>m\<close> words, and the
  running count is the number of words in the accumulator and at most \<open>m\<close>.\<close>

definition bounded :: "int \<Rightarrow> packer \<Rightarrow> bool" where
  "bounded m st \<longleftrightarrow>
     (\<forall>c\<in>set (chunks st). int (length (split_ws c)) \<le> m) \<and>
     word_count st = wsum (current st) \<and> word_count st \<le> m"

text \<open>A chunk as the interface promises it: not empty, no whitespace at its ends.\<close>

definition trimmed :: "pystr \<Rightarrow> bool" where
  "trimmed c \<longleftrightarrow> c \<noteq> [] \<and> strip c = c"

text \<open>The invariant of the loop for the shape of the chunks.\<close>

definition well_formed :: "packer \<Rightarrow> bool" where
  "well_formed st \<longleftrightarrow>
     (\<forall>c\<in>set (chunks st). trimmed c) \<and> (\<forall>s\<in>set (current st). split_ws s \<noteq> [])"

text \<open>A clean chunk that \<open>chunk_text\<close> returns unchanged, alone.\<close>

definition stable :: "int \<Rightarrow> int \<Rightarrow> pystr \<Rightarrow> bool" where
  "stable mn m c \<longleftrightarrow> chunk_text c mn m = Inr [c] \<and> clean c"

text \<open>The invariant of the loop for chunking a chunk again; \<open>ss\<close> are the sentences still
  to come.\<close>

definition rechunkable :: "int \<Rightarrow> int \<Rightarrow> pystr list \<Rightarrow> packer \<Rightarrow> bool" where
  "rechunkable mn m ss st \<longleftrightarrow>
     bounded m st \<and> (\<forall>c\<in>set (chunks st). stable mn m c) \<and> good_seq (current st @ ss)"

text \<open>The normalisation in the words of the description: collapse every run of whitespace
  to one space, then trim the ends. The code trims first and collapses then.\<close>

definition normalise_spec :: "pystr \<Rightarrow> pystr" where
  "normalise_spec t = strip (re_sub_ws t)"

text \<open>Whether a string has a position after one of \<^verbatim>\<open>.!?\<close> that is followed by whitespace.\<close>

fun has_boundary :: "pystr \<Rightarrow> bool" where
  "has_boundary (c # d # cs) = (is_terminal c \<and> isspace d \<or> has_boundary (d # cs))"
| "has_boundary cs = False"

section \<open>Lemmas\<close>

lemma isspace_SP [simp]: "isspace SP"
  by (simp add: isspace_def SP_def)

lemma terminal_not_space: "is_terminal c \<Longrightarrow> \<not> isspace c"
  by (auto simp: isspace_def is_terminal_def)

lemma split_ws_wordlike: "w \<in> set (split_ws t) \<Longrightarrow> wordlike w"
proof (induction t rule: split_ws.induct)
  case 1
  then show ?case by simp
next
  case (2 c cs)
  show ?case
  proof (cases "isspace c")
    case True
    with 2 show ?thesis by simp
  next
    case False
    have "\<forall>x\<in>set (takeWhile (\<lambda>x. \<not> isspace x) cs). \<not> isspace x"
      using set_takeWhileD by fastforce
    with False have "wordlike (c # takeWhile (\<lambda>x. \<not> isspace x) cs)"
      by (simp add: wordlike_def)
    with False 2 show ?thesis by auto
  qed
qed

lemma split_ws_Nil_iff: "split_ws t = [] \<longleftrightarrow> (\<forall>c\<in>set t. isspace c)"
  by (induction t rule: split_ws.induct) auto

lemma split_ws_append_space:
  "isspace s \<Longrightarrow> split_ws (a @ s # b) = split_ws a @ split_ws b"
proof (induction a rule: split_ws.induct)
  case 1
  then show ?case by simp
next
  case (2 c cs)
  show ?case
  proof (cases "isspace c")
    case True
    with 2 show ?thesis by simp
  next
    case False
    have tw: "takeWhile (\<lambda>x. \<not> isspace x) (cs @ s # b) = takeWhile (\<lambda>x. \<not> isspace x) cs"
      using \<open>isspace s\<close> by (simp add: takeWhile_tail)
    have dw: "dropWhile (\<lambda>x. \<not> isspace x) (cs @ s # b) = dropWhile (\<lambda>x. \<not> isspace x) cs @ s # b"
      using \<open>isspace s\<close> by (simp add: dropWhile_append3)
    from False 2 tw dw show ?thesis by simp
  qed
qed

lemma split_ws_word:
  assumes "wordlike w"
  shows "split_ws w = [w]"
proof (cases w)
  case Nil
  with assms show ?thesis by (simp add: wordlike_def)
next
  case (Cons c cs)
  with assms have c: "\<not> isspace c" and cs: "\<forall>x\<in>set cs. \<not> isspace x"
    by (simp_all add: wordlike_def)
  from cs have tw: "takeWhile (\<lambda>x. \<not> isspace x) cs = cs"
    and dw: "dropWhile (\<lambda>x. \<not> isspace x) cs = []"
    by simp_all
  show ?thesis unfolding Cons using c by (simp add: tw dw)
qed

lemma split_ws_join: "split_ws (join_sp xs) = concat (map split_ws xs)"
  by (induction xs rule: join_sp.induct) (auto simp: split_ws_append_space)

lemma concat_split_ws_words: "\<forall>w\<in>set ws. wordlike w \<Longrightarrow> concat (map split_ws ws) = ws"
  by (induction ws) (simp_all add: split_ws_word)

lemma split_ws_join_words: "\<forall>w\<in>set ws. wordlike w \<Longrightarrow> split_ws (join_sp ws) = ws"
  by (simp add: split_ws_join concat_split_ws_words)

lemma split_ws_dropWhile: "split_ws (dropWhile isspace t) = split_ws t"
  by (induction t) auto

lemma split_ws_append_spaces:
  "\<forall>c\<in>set sps. isspace c \<Longrightarrow> split_ws (a @ sps) = split_ws a"
proof (induction sps arbitrary: a)
  case Nil
  then show ?case by simp
next
  case (Cons s sps)
  then have "split_ws (a @ s # sps) = split_ws a @ split_ws sps"
    by (simp add: split_ws_append_space)
  moreover from Cons have "split_ws sps = []" by (simp add: split_ws_Nil_iff)
  ultimately show ?case by simp
qed

lemma rstrip_decomp:
  "t = rev (dropWhile isspace (rev t)) @ rev (takeWhile isspace (rev t))"
proof -
  have "rev (rev t) = rev (takeWhile isspace (rev t) @ dropWhile isspace (rev t))"
    by (simp only: takeWhile_dropWhile_id)
  then show ?thesis by (simp only: rev_append rev_rev_ident)
qed

lemma split_ws_rstrip: "split_ws (rev (dropWhile isspace (rev t))) = split_ws t"
proof -
  have "\<forall>c\<in>set (rev (takeWhile isspace (rev t))). isspace c"
    by (auto dest: set_takeWhileD)
  from split_ws_append_spaces [OF this, of "rev (dropWhile isspace (rev t))"]
  show ?thesis using rstrip_decomp [of t] by simp
qed

lemma split_ws_strip: "split_ws (strip t) = split_ws t"
  by (simp add: strip_def split_ws_rstrip split_ws_dropWhile)

subsection \<open>Normalisation\<close>

lemma re_sub_ws_prefix:
  "\<forall>c\<in>set w. \<not> isspace c \<Longrightarrow> re_sub_ws (w @ r) = w @ re_sub_ws r"
  by (induction w) simp_all

lemma re_sub_ws_words:
  "t = [] \<or> \<not> isspace (last t) \<Longrightarrow> re_sub_ws (dropWhile isspace t) = join_sp (split_ws t)"
proof (induction t rule: split_ws.induct)
  case 1
  then show ?case by simp
next
  case (2 c cs)
  show ?case
  proof (cases "isspace c")
    case True
    from 2(3) have "cs = [] \<or> \<not> isspace (last cs)" by (auto split: if_splits)
    with True 2 show ?thesis by simp
  next
    case False
    define w where "w = takeWhile (\<lambda>x. \<not> isspace x) cs"
    define r where "r = dropWhile (\<lambda>x. \<not> isspace x) cs"
    have cs: "cs = w @ r" by (simp add: w_def r_def)
    have w: "\<forall>x\<in>set (c # w). \<not> isspace x"
      using False set_takeWhileD unfolding w_def by fastforce
    have sub: "re_sub_ws (c # cs) = (c # w) @ re_sub_ws r"
      using re_sub_ws_prefix [OF w, of r] cs by simp
    have sp: "split_ws (c # cs) = (c # w) # split_ws r"
      using False by (simp add: w_def r_def)
    show ?thesis
    proof (cases r)
      case Nil
      with sub sp False show ?thesis by simp
    next
      case (Cons s r')
      have s: "isspace s"
        using hd_dropWhile [of "\<lambda>x. \<not> isspace x" cs] Cons unfolding r_def by simp
      from 2(3) cs Cons have lr: "\<not> isspace (last r)" by simp
      with Cons have "r = [] \<or> \<not> isspace (last r)" by simp
      with 2(2) False have ih: "re_sub_ws (dropWhile isspace r) = join_sp (split_ws r)"
        by (simp add: r_def)
      have "last r \<in> set r" using Cons by simp
      with lr have "split_ws r \<noteq> []" by (auto simp: split_ws_Nil_iff)
      then obtain v vs where v: "split_ws r = v # vs" by (cases "split_ws r") auto
      have "re_sub_ws r = SP # join_sp (split_ws r)"
        using ih Cons s by simp
      with sub sp v False show ?thesis by simp
    qed
  qed
qed

lemma strip_last: "strip t = [] \<or> \<not> isspace (last (strip t))"
proof -
  let ?d = "dropWhile isspace (rev (dropWhile isspace t))"
  show ?thesis
  proof (cases "?d = []")
    case True
    then show ?thesis by (simp only: strip_def rev.simps simp_thms)
  next
    case False
    then have "\<not> isspace (hd ?d)" by (rule hd_dropWhile)
    with False show ?thesis by (simp add: strip_def last_rev)
  qed
qed

lemma strip_hd: "dropWhile isspace (strip t) = strip t"
proof (cases "strip t = []")
  case True
  then show ?thesis by simp
next
  case False
  let ?v = "dropWhile isspace t"
  have v: "?v = strip t @ rev (takeWhile isspace (rev ?v))"
    using rstrip_decomp [of ?v] by (simp add: strip_def)
  have "?v = [] \<Longrightarrow> strip t = []" by (simp only: strip_def rev.simps dropWhile.simps)
  with False have "?v \<noteq> []" by blast
  then have "\<not> isspace (hd ?v)" by (rule hd_dropWhile)
  moreover have "hd ?v = hd (strip t)"
    using hd_append2 [OF False, of "rev (takeWhile isspace (rev ?v))"] v by simp
  ultimately have "\<not> isspace (hd (strip t))" by simp
  with False show ?thesis by (cases "strip t") simp_all
qed

lemma normalise_words: "re_sub_ws (strip t) = join_sp (split_ws t)"
  using re_sub_ws_words [OF strip_last, of t] by (simp add: strip_hd split_ws_strip)

subsection \<open>Joining\<close>

lemma join_sp_Cons: "ys \<noteq> [] \<Longrightarrow> join_sp (x # ys) = x @ SP # join_sp ys"
  by (cases ys) simp_all

lemma join_sp_append:
  "xs \<noteq> [] \<Longrightarrow> ys \<noteq> [] \<Longrightarrow> join_sp (xs @ ys) = join_sp xs @ SP # join_sp ys"
  by (induction xs rule: join_sp.induct) (simp_all add: join_sp_Cons)

lemma join_sp_hd: "xs \<noteq> [] \<Longrightarrow> hd xs \<noteq> [] \<Longrightarrow> hd (join_sp xs) = hd (hd xs)"
  by (induction xs rule: join_sp.induct) simp_all

lemma join_sp_ne_last: "xs \<noteq> [] \<Longrightarrow> last xs \<noteq> [] \<Longrightarrow> join_sp xs \<noteq> []"
  by (induction xs rule: join_sp.induct) simp_all

lemma join_sp_last: "xs \<noteq> [] \<Longrightarrow> last xs \<noteq> [] \<Longrightarrow> last (join_sp xs) = last (last xs)"
proof (induction xs rule: join_sp.induct)
  case (3 x y ys)
  then have "join_sp (y # ys) \<noteq> []" using join_sp_ne_last [of "y # ys"] by simp
  with 3 show ?case by simp
qed simp_all

lemma join_sp_Nil_iff: "xs \<noteq> [] \<Longrightarrow> hd xs \<noteq> [] \<Longrightarrow> join_sp xs \<noteq> []"
  by (induction xs rule: join_sp.induct) simp_all

lemma clean_words_ne: "clean s \<Longrightarrow> split_ws s \<noteq> []"
  by (auto simp: clean_def)

lemma clean_hd: "clean s \<Longrightarrow> \<not> isspace (hd s)"
proof -
  assume c: "clean s"
  then obtain w ws where w: "split_ws s = w # ws"
    using clean_words_ne by (cases "split_ws s") auto
  then have wl: "wordlike w" using split_ws_wordlike [of w s] by simp
  then have "w \<noteq> []" by (simp add: wordlike_def)
  with w have "hd (join_sp (split_ws s)) = hd w"
    using join_sp_hd [of "split_ws s"] by simp
  moreover from wl have "\<not> isspace (hd w)" by (cases w) (simp_all add: wordlike_def)
  ultimately show ?thesis using c by (simp add: clean_def)
qed

lemma clean_last: "clean s \<Longrightarrow> \<not> isspace (last s)"
proof -
  assume c: "clean s"
  then have ne: "split_ws s \<noteq> []" by (rule clean_words_ne)
  then have "last (split_ws s) \<in> set (split_ws s)" by simp
  then have wl: "wordlike (last (split_ws s))" by (rule split_ws_wordlike)
  then have n: "last (split_ws s) \<noteq> []" by (simp add: wordlike_def)
  then have "last (last (split_ws s)) \<in> set (last (split_ws s))" by simp
  with wl have "\<not> isspace (last (last (split_ws s)))" by (simp add: wordlike_def)
  moreover have "last (join_sp (split_ws s)) = last (last (split_ws s))"
    using ne n by (rule join_sp_last)
  ultimately show ?thesis using c by (simp add: clean_def)
qed

lemma strip_clean: "clean s \<Longrightarrow> strip s = s"
proof -
  assume c: "clean s"
  then have ne: "s \<noteq> []" by (simp add: clean_def)
  from c have h: "\<not> isspace (hd s)" by (rule clean_hd)
  from c have l: "\<not> isspace (last s)" by (rule clean_last)
  from ne h have 1: "dropWhile isspace s = s" by (cases s) simp_all
  from ne l have "\<not> isspace (hd (rev s))" by (simp add: hd_rev)
  with ne have 2: "dropWhile isspace (rev s) = rev s" by (cases "rev s") simp_all
  show ?thesis by (simp add: strip_def 1 2)
qed

lemma clean_join_words:
  "ws \<noteq> [] \<Longrightarrow> \<forall>w\<in>set ws. wordlike w \<Longrightarrow> clean (join_sp ws)"
proof -
  assume ne: "ws \<noteq> []" and wl: "\<forall>w\<in>set ws. wordlike w"
  from ne wl have "hd ws \<noteq> []" by (cases ws) (simp_all add: wordlike_def)
  with ne have "join_sp ws \<noteq> []" by (rule join_sp_Nil_iff)
  with wl show ?thesis by (simp add: clean_def split_ws_join_words)
qed

lemma clean_normal: "clean s \<Longrightarrow> re_sub_ws (strip s) = s"
  by (simp add: normalise_words clean_def)

lemma clean_append:
  assumes "clean a" and "clean b"
  shows "clean (a @ SP # b)"
proof -
  have "join_sp (split_ws a @ split_ws b) = join_sp (split_ws a) @ SP # join_sp (split_ws b)"
    using assms by (intro join_sp_append clean_words_ne)
  with assms show ?thesis by (simp add: clean_def split_ws_append_space)
qed

subsection \<open>Splitting after terminal punctuation\<close>

lemma re_split_ne: "re_split_terminal t \<noteq> []"
  by (cases t) (simp_all split: list.splits)

lemma re_split_Cons:
  "\<not> (is_terminal c \<and> cs \<noteq> [] \<and> isspace (hd cs)) \<Longrightarrow>
   re_split_terminal (c # cs) = (c # hd (re_split_terminal cs)) # tl (re_split_terminal cs)"
  using re_split_ne [of cs] by (cases "re_split_terminal cs") auto

lemma re_split_cut:
  "is_terminal c \<Longrightarrow> isspace s \<Longrightarrow> \<not> isspace x \<Longrightarrow>
   re_split_terminal (c # s # x # X) = [c] # re_split_terminal (x # X)"
  by simp

lemma re_split_word: "\<forall>c\<in>set w. \<not> isspace c \<Longrightarrow> re_split_terminal w = [w]"
proof (induction w)
  case Nil
  then show ?case by simp
next
  case (Cons c w)
  then have "\<not> (is_terminal c \<and> w \<noteq> [] \<and> isspace (hd w))" by (cases w) auto
  from re_split_Cons [OF this] Cons show ?case by simp
qed

lemma re_split_word_space:
  assumes "\<forall>c\<in>set u. \<not> isspace c" and "\<not> isspace x"
  shows "re_split_terminal (u @ SP # x # X) =
     (if u \<noteq> [] \<and> is_terminal (last u) then u # re_split_terminal (x # X)
      else (u @ SP # hd (re_split_terminal (x # X))) # tl (re_split_terminal (x # X)))"
  using assms(1)
proof (induction u)
  case Nil
  have "\<not> is_terminal SP" using terminal_not_space [of SP] by auto
  then have "\<not> (is_terminal SP \<and> x # X \<noteq> [] \<and> isspace (hd (x # X)))" by simp
  from re_split_Cons [OF this] show ?case by simp
next
  case (Cons c u)
  show ?case
  proof (cases u)
    case Nil
    show ?thesis
    proof (cases "is_terminal c")
      case True
      with Nil assms(2) show ?thesis by simp
    next
      case False
      then have n: "\<not> (is_terminal c \<and> SP # x # X \<noteq> [] \<and> isspace (hd (SP # x # X)))" by simp
      have "\<not> is_terminal SP" using terminal_not_space [of SP] by auto
      then have "\<not> (is_terminal SP \<and> x # X \<noteq> [] \<and> isspace (hd (x # X)))" by simp
      from re_split_Cons [OF this] re_split_Cons [OF n] Nil False show ?thesis by simp
    qed
  next
    case (Cons d u')
    with Cons.prems have "\<not> isspace d" by simp
    with Cons have n: "\<not> (is_terminal c \<and> u @ SP # x # X \<noteq> [] \<and> isspace (hd (u @ SP # x # X)))"
      by simp
    from Cons.prems have "\<forall>c\<in>set u. \<not> isspace c" by simp
    from Cons.IH [OF this] re_split_Cons [OF n] Cons show ?thesis by simp
  qed
qed

lemma wordlike_clean: "wordlike w \<Longrightarrow> clean w"
  by (simp add: clean_def split_ws_word) (simp add: wordlike_def)

lemma wordlike_single: "wordlike w \<Longrightarrow> single_sentence w"
  by (simp add: single_sentence_def wordlike_clean re_split_word wordlike_def)

lemma good_seq_Cons:
  "single_sentence s \<Longrightarrow> is_terminal (last s) \<Longrightarrow> good_seq X \<Longrightarrow> good_seq (s # X)"
  by (auto simp: good_seq_def)

lemma good_seq_single: "single_sentence s \<Longrightarrow> good_seq [s]"
  by (simp add: good_seq_def)

lemma sentences_of_words:
  "ws \<noteq> [] \<Longrightarrow> \<forall>w\<in>set ws. wordlike w \<Longrightarrow>
   join_sp (re_split_terminal (join_sp ws)) = join_sp ws \<and>
   good_seq (re_split_terminal (join_sp ws))"
proof (induction ws rule: join_sp.induct)
  case 1
  then show ?case by simp
next
  case (2 w)
  then have "wordlike w" by simp
  then show ?case
    using wordlike_single [of w] by (simp add: re_split_word wordlike_def good_seq_single)
next
  case (3 w v vs)
  let ?Y = "join_sp (v # vs)"
  let ?S = "re_split_terminal ?Y"
  from 3 have w: "wordlike w" and vs: "\<forall>w\<in>set (v # vs). wordlike w" by simp_all
  from 3 vs have ih: "join_sp ?S = ?Y" "good_seq ?S" by simp_all
  have cY: "clean ?Y" using vs by (intro clean_join_words) simp_all
  then have "?Y \<noteq> []" by (simp add: clean_def)
  then obtain x X where Y: "?Y = x # X" by (cases ?Y) auto
  with cY have x: "\<not> isspace x" using clean_hd [of ?Y] by simp
  from w have wn: "\<forall>c\<in>set w. \<not> isspace c" "w \<noteq> []" by (simp_all add: wordlike_def)
  obtain p ps where S: "?S = p # ps" using re_split_ne [of ?Y] by (cases ?S) auto
  have split: "re_split_terminal (join_sp (w # v # vs)) =
     (if is_terminal (last w) then w # ?S else (w @ SP # p) # ps)"
    using re_split_word_space [OF wn(1) x, of X] wn(2) Y S by simp
  show ?case
  proof (cases "is_terminal (last w)")
    case True
    have "join_sp (w # ?S) = w @ SP # join_sp ?S"
      using re_split_ne by (rule join_sp_Cons)
    moreover have "good_seq (w # ?S)"
      using wordlike_single [OF w] True ih(2) by (rule good_seq_Cons)
    ultimately show ?thesis using True split ih(1) by simp
  next
    case False
    from ih(2) S have sp: "single_sentence p" by (simp add: good_seq_def)
    then have cp: "clean p" and rp: "re_split_terminal p = [p]"
      by (simp_all add: single_sentence_def)
    from cp have "p \<noteq> []" by (simp add: clean_def)
    then obtain y P where p: "p = y # P" by (cases p) auto
    with cp have y: "\<not> isspace y" using clean_hd [of p] by simp
    have j: "join_sp ((w @ SP # p) # ps) = w @ SP # join_sp (p # ps)"
      by (cases ps) simp_all
    have "re_split_terminal (w @ SP # p) = [w @ SP # p]"
      using re_split_word_space [OF wn(1) y, of P] False rp p by simp
    moreover have "clean (w @ SP # p)"
      using wordlike_clean [OF w] cp by (rule clean_append)
    ultimately have s1: "single_sentence (w @ SP # p)" by (simp add: single_sentence_def)
    have "good_seq ((w @ SP # p) # ps)"
    proof (cases ps)
      case Nil
      with s1 show ?thesis by (simp add: good_seq_def)
    next
      case (Cons q qs)
      with ih(2) S have "is_terminal (last p)" by (simp add: good_seq_def)
      with \<open>p \<noteq> []\<close> have "is_terminal (last (w @ SP # p))" by simp
      with s1 ih(2) S Cons show ?thesis by (simp add: good_seq_def)
    qed
    with False split j ih(1) S show ?thesis by simp
  qed
qed

lemma re_split_sentence_space:
  "re_split_terminal s = [s] \<Longrightarrow> s \<noteq> [] \<Longrightarrow> is_terminal (last s) \<Longrightarrow> \<not> isspace x \<Longrightarrow>
   re_split_terminal (s @ SP # x # X) = s # re_split_terminal (x # X)"
proof (induction s)
  case Nil
  then show ?case by simp
next
  case (Cons c s)
  show ?case
  proof (cases s)
    case Nil
    with Cons.prems show ?thesis by simp
  next
    case (Cons d s')
    have n: "\<not> (is_terminal c \<and> isspace d)"
    proof
      assume "is_terminal c \<and> isspace d"
      with Cons Cons.prems(1) show False by simp
    qed
    then have n1: "\<not> (is_terminal c \<and> s \<noteq> [] \<and> isspace (hd s))" using Cons by simp
    from re_split_Cons [OF n1] Cons.prems(1)
    have "hd (re_split_terminal s) = s" "tl (re_split_terminal s) = []" by simp_all
    then have rs: "re_split_terminal s = [s]"
      using re_split_ne [of s] by (cases "re_split_terminal s") simp_all
    from Cons Cons.prems have "s \<noteq> []" "is_terminal (last s)" by simp_all
    from Cons.IH [OF rs this Cons.prems(4)]
    have ih: "re_split_terminal (s @ SP # x # X) = s # re_split_terminal (x # X)" .
    from n Cons have "\<not> (is_terminal c \<and> s @ SP # x # X \<noteq> [] \<and> isspace (hd (s @ SP # x # X)))"
      by simp
    from re_split_Cons [OF this] ih show ?thesis by simp
  qed
qed

lemma good_seq_join:
  "X \<noteq> [] \<Longrightarrow> good_seq X \<Longrightarrow> re_split_terminal (join_sp X) = X \<and> clean (join_sp X)"
proof (induction X rule: join_sp.induct)
  case 1
  then show ?case by simp
next
  case (2 s)
  then show ?case by (simp add: good_seq_def single_sentence_def)
next
  case (3 s t ts)
  let ?Y = "join_sp (t # ts)"
  from 3(3) have g: "good_seq (t # ts)" and ss: "single_sentence s" and ts: "is_terminal (last s)"
    by (simp_all add: good_seq_def)
  from 3 g have ih: "re_split_terminal ?Y = t # ts" "clean ?Y" by simp_all
  from ss have cs: "clean s" and rs: "re_split_terminal s = [s]"
    by (simp_all add: single_sentence_def)
  from cs have sn: "s \<noteq> []" by (simp add: clean_def)
  from ih(2) have "?Y \<noteq> []" by (simp add: clean_def)
  then obtain x X where Y: "?Y = x # X" by (cases ?Y) auto
  with ih(2) have x: "\<not> isspace x" using clean_hd [of ?Y] by simp
  from re_split_sentence_space [OF rs sn ts x, of X] Y ih(1)
  have "re_split_terminal (join_sp (s # t # ts)) = s # t # ts" by simp
  moreover have "clean (join_sp (s # t # ts))"
    using clean_append [OF cs ih(2)] by simp
  ultimately show ?case by simp
qed

subsection \<open>Sentences of a text\<close>

lemma split_sentences_blank: "split_ws t = [] \<Longrightarrow> split_sentences t = []"
  by (simp add: split_sentences_def normalise_words)

lemma normalised_Nil_iff: "re_sub_ws (strip t) = [] \<longleftrightarrow> split_ws t = []"
proof
  assume "re_sub_ws (strip t) = []"
  then have "split_ws (join_sp (split_ws t)) = []" by (simp add: normalise_words)
  moreover have "split_ws (join_sp (split_ws t)) = split_ws t"
    using split_ws_wordlike by (intro split_ws_join_words) blast
  ultimately show "split_ws t = []" by simp
next
  assume "split_ws t = []"
  then show "re_sub_ws (strip t) = []" by (simp add: normalise_words)
qed

lemma split_sentences_text:
  assumes "split_ws t \<noteq> []"
  shows "split_sentences t = re_split_terminal (join_sp (split_ws t))"
    and "join_sp (split_sentences t) = join_sp (split_ws t)"
    and "good_seq (split_sentences t)"
    and "split_sentences t \<noteq> []"
proof -
  have wl: "\<forall>w\<in>set (split_ws t). wordlike w" using split_ws_wordlike by blast
  from assms have "re_sub_ws (strip t) \<noteq> []" by (simp add: normalised_Nil_iff)
  then show 1: "split_sentences t = re_split_terminal (join_sp (split_ws t))"
    by (simp add: split_sentences_def normalise_words)
  from sentences_of_words [OF assms wl] 1
  show "join_sp (split_sentences t) = join_sp (split_ws t)" "good_seq (split_sentences t)"
    by simp_all
  from 1 show "split_sentences t \<noteq> []" by (simp add: re_split_ne)
qed

lemma split_sentences_good: "good_seq (split_sentences t)"
proof (cases "split_ws t = []")
  case True
  then show ?thesis by (simp add: split_sentences_blank good_seq_def)
next
  case False
  then show ?thesis by (rule split_sentences_text(3))
qed

lemma split_sentences_words: "concat (map split_ws (split_sentences t)) = split_ws t"
proof (cases "split_ws t = []")
  case True
  then show ?thesis by (simp add: split_sentences_blank)
next
  case False
  have "split_ws (join_sp (split_ws t)) = split_ws t"
    using split_ws_wordlike by (intro split_ws_join_words) blast
  with split_sentences_text(2) [OF False] split_ws_join [of "split_sentences t"]
  show ?thesis by simp
qed

subsection \<open>Windows of an oversized sentence\<close>

lemma chop_Nil [simp]: "chop k [] = []"
  by (simp add: chop.simps)

lemma chop_step: "0 < k \<Longrightarrow> xs \<noteq> [] \<Longrightarrow> chop k xs = take k xs # chop k (drop k xs)"
  by (subst chop.simps) simp

lemma concat_chop: "0 < k \<Longrightarrow> concat (chop k xs) = xs"
proof (induction k xs rule: chop.induct)
  case (1 k xs)
  then show ?case by (cases "xs = []") (simp_all add: chop_step)
qed

lemma chop_parts:
  "0 < k \<Longrightarrow> p \<in> set (chop k xs) \<Longrightarrow> p \<noteq> [] \<and> length p \<le> k \<and> set p \<subseteq> set xs"
proof (induction k xs rule: chop.induct)
  case (1 k xs)
  show ?case
  proof (cases "xs = []")
    case True
    with 1 show ?thesis by simp
  next
    case False
    with 1(2,3) have "p = take k xs \<or> p \<in> set (chop k (drop k xs))"
      by (simp add: chop_step)
    then show ?thesis
    proof
      assume "p = take k xs"
      with False 1(2) show ?thesis by (auto dest: in_set_takeD)
    next
      assume "p \<in> set (chop k (drop k xs))"
      with 1(1) [OF _ 1(2)] False 1(2)
      have "p \<noteq> [] \<and> length p \<le> k \<and> set p \<subseteq> set (drop k xs)" by simp
      then show ?thesis by (auto dest: in_set_dropD)
    qed
  qed
qed

lemma py_slice_window:
  "0 \<le> i \<Longrightarrow> i < int (length xs) \<Longrightarrow> 0 < m \<Longrightarrow>
   py_slice xs i (i + m) = take (nat m) (drop (nat i) xs)"
proof -
  assume i: "0 \<le> i" "i < int (length xs)" and m: "0 < m"
  let ?h = "min (i + m) (int (length xs))"
  have "take (nat ?h - nat i) (drop (nat i) xs) = take (nat m) (drop (nat i) xs)"
  proof (cases "i + m \<le> int (length xs)")
    case True
    with i m have "nat ?h - nat i = nat m" by (simp add: min_def nat_diff_distrib' [symmetric])
    then show ?thesis by simp
  next
    case False
    with i m have "nat ?h - nat i = length (drop (nat i) xs)" "length (drop (nat i) xs) \<le> nat m"
      by (simp_all add: min_def)
    then show ?thesis by simp
  qed
  with i m show ?thesis by (simp add: py_slice_def Let_def min_def)
qed

lemma emit_windows_acc:
  "emit_windows ws m is cks = cks @ emit_windows ws m is []"
proof (induction "is" arbitrary: cks)
  case Nil
  then show ?case by simp
next
  case (Cons i "is")
  show ?case
    using Cons [of "cks @ [strip (join_sp (py_slice ws i (i + m)))]"]
      Cons [of "[strip (join_sp (py_slice ws i (i + m)))]"] Cons [of cks]
    by (simp add: Let_def)
qed

lemma emit_windows_range:
  assumes wl: "\<forall>w\<in>set ws. wordlike w"
  shows "0 < m \<Longrightarrow> n = int (length ws) \<Longrightarrow> 0 \<le> i \<Longrightarrow>
    emit_windows ws m (range_up i n m) [] = map join_sp (chop (nat m) (drop (nat i) ws))"
proof (induction i n m rule: range_up.induct)
  case (1 i n m)
  show ?case
  proof (cases "i < n")
    case False
    with 1(2,3) have "range_up i n m = []" "drop (nat i) ws = []"
      by (simp_all add: range_up.simps)
    then show ?thesis by simp
  next
    case True
    let ?p = "take (nat m) (drop (nat i) ws)"
    from True 1(2,3,4) have r: "range_up i n m = i # range_up (i + m) n m"
      by (subst range_up.simps) simp
    from True 1(3,4) have dn: "drop (nat i) ws \<noteq> []" by simp
    then have pn: "?p \<noteq> []" using 1(2) by simp
    have "\<forall>w\<in>set ?p. wordlike w"
      using wl by (auto dest!: in_set_takeD in_set_dropD)
    with pn have "clean (join_sp ?p)" by (rule clean_join_words)
    then have part: "strip (join_sp ?p) = join_sp ?p" "join_sp ?p \<noteq> []"
      by (simp_all add: strip_clean) (simp add: clean_def)
    have sl: "py_slice ws i (i + m) = ?p"
      using 1(4) True 1(3) 1(2) by (simp add: py_slice_window)
    from 1(4) 1(2) have d: "drop (nat m) (drop (nat i) ws) = drop (nat (i + m)) ws"
      by (simp add: nat_add_distrib add.commute)
    from 1(1) True 1(2,3,4)
    have ih: "emit_windows ws m (range_up (i + m) n m) [] =
        map join_sp (chop (nat m) (drop (nat (i + m)) ws))" by simp
    have "emit_windows ws m (range_up i n m) [] =
        [join_sp ?p] @ emit_windows ws m (range_up (i + m) n m) []"
      using emit_windows_acc [of ws m "range_up (i + m) n m" "[join_sp ?p]"] r sl part
      by (simp add: Let_def)
    also have "\<dots> = map join_sp (chop (nat m) (drop (nat i) ws))"
      using chop_step [of "nat m" "drop (nat i) ws"] dn 1(2) ih d by simp
    finally show ?thesis .
  qed
qed

subsection \<open>One iteration of the packer\<close>

lemma wsum_simps [simp]:
  "wsum [] = 0"
  "wsum (s # X) = int (length (split_ws s)) + wsum X"
  "wsum (X @ Y) = wsum X + wsum Y"
  by (simp_all add: wsum_def)

lemma wsum_nonneg: "0 \<le> wsum X"
  by (simp add: wsum_def)

lemma oversized_parts_chop:
  "0 < m \<Longrightarrow> oversized_parts s m = map join_sp (chop (nat m) (split_ws s))"
proof -
  assume m: "0 < m"
  have "\<forall>w\<in>set (split_ws s). wordlike w" using split_ws_wordlike by blast
  from emit_windows_range [OF this m refl, of 0] show ?thesis
    by (simp add: oversized_parts_def)
qed

lemma step_oversized:
  "0 < m \<Longrightarrow> m < int (length (split_ws s)) \<Longrightarrow>
   step mn m s st =
     Inr ((flush_if_any st)\<lparr>chunks := chunks (flush_if_any st) @ oversized_parts s m\<rparr>)"
  using emit_windows_acc [of "split_ws s" m "range_up 0 (int (length (split_ws s))) m"
      "chunks (flush_if_any st)"]
  by (simp add: step_def Let_def py_range_def oversized_parts_def flush_if_any_def)

lemma step_overflow:
  "int (length (split_ws s)) \<le> m \<Longrightarrow> m < word_count st + int (length (split_ws s)) \<Longrightarrow>
   step mn m s st =
     Inr \<lparr>chunks = chunks (flush st), current = [s], word_count = int (length (split_ws s))\<rparr>"
  by (simp add: step_def Let_def flush_def)

lemma step_append:
  "int (length (split_ws s)) \<le> m \<Longrightarrow> word_count st + int (length (split_ws s)) \<le> m \<Longrightarrow>
   step mn m s st =
     Inr (st\<lparr>current := current st @ [s],
              word_count := word_count st + int (length (split_ws s))\<rparr>)"
  by (simp add: step_def Let_def)

lemma step_cases:
  assumes "0 < m"
  obtains (oversized) "m < int (length (split_ws s))"
      "step mn m s st =
        Inr ((flush_if_any st)\<lparr>chunks := chunks (flush_if_any st) @ oversized_parts s m\<rparr>)"
  | (overflow) "int (length (split_ws s)) \<le> m" "m < word_count st + int (length (split_ws s))"
      "step mn m s st =
        Inr \<lparr>chunks = chunks (flush st), current = [s],
             word_count = int (length (split_ws s))\<rparr>"
  | (append) "int (length (split_ws s)) \<le> m" "word_count st + int (length (split_ws s)) \<le> m"
      "step mn m s st =
        Inr (st\<lparr>current := current st @ [s],
                 word_count := word_count st + int (length (split_ws s))\<rparr>)"
  using assms step_oversized [of m s mn st] step_overflow [of s m st mn] step_append [of s m st mn]
  by (cases "m < int (length (split_ws s))"; cases "m < word_count st + int (length (split_ws s))")
     simp_all

lemma pack_invariant:
  assumes "\<And>s ss st. I (s # ss) st \<Longrightarrow> \<exists>st'. step mn m s st = Inr st' \<and> I ss st'"
  shows "I ss st \<Longrightarrow> \<exists>st'. pack mn m ss st = Inr st' \<and> I [] st'"
proof (induction ss arbitrary: st)
  case Nil
  then show ?case by simp
next
  case (Cons s ss)
  from assms [OF Cons.prems] obtain st1 where "step mn m s st = Inr st1" "I ss st1" by blast
  with Cons.IH [of st1] show ?case by simp
qed

lemma pack_append:
  "pack mn m (xs @ ys) st =
     (case pack mn m xs st of Inl e \<Rightarrow> Inl e | Inr st1 \<Rightarrow> pack mn m ys st1)"
  by (induction xs arbitrary: st) (simp_all split: sum.splits)

subsection \<open>The words of the chunks\<close>

lemma flush_words: "out_words (flush st) = out_words st"
  by (simp add: out_words_def flush_def split_ws_strip split_ws_join)

lemma flush_if_any_words: "out_words (flush_if_any st) = out_words st"
  by (simp add: flush_if_any_def flush_words)

lemma flush_if_any_current [simp]: "current (flush_if_any st) = []"
  by (simp add: flush_if_any_def flush_def)

lemma oversized_parts_words:
  "0 < m \<Longrightarrow> concat (map split_ws (oversized_parts s m)) = split_ws s"
proof -
  assume m: "0 < m"
  have "map (\<lambda>p. split_ws (join_sp p)) (chop (nat m) (split_ws s)) = chop (nat m) (split_ws s)"
  proof (rule map_idI)
    fix p assume "p \<in> set (chop (nat m) (split_ws s))"
    with m have "set p \<subseteq> set (split_ws s)" using chop_parts [of "nat m" p] by simp
    then have "\<forall>w\<in>set p. wordlike w" using split_ws_wordlike by blast
    then show "split_ws (join_sp p) = p" by (rule split_ws_join_words)
  qed
  with m show ?thesis by (simp add: oversized_parts_chop concat_chop o_def)
qed

lemma step_words:
  "0 < m \<Longrightarrow> \<exists>st'. step mn m s st = Inr st' \<and> out_words st' = out_words st @ split_ws s"
proof -
  assume m: "0 < m"
  then show ?thesis
  proof (cases rule: step_cases [of m s mn st])
    case oversized
    then show ?thesis
      using flush_if_any_words [of st] oversized_parts_words [OF m, of s]
      by (simp add: out_words_def)
  next
    case overflow
    then show ?thesis using flush_words [of st] by (simp add: out_words_def flush_def)
  next
    case append
    then show ?thesis by (simp add: out_words_def)
  qed
qed

lemma pack_words:
  assumes "0 < m"
  shows "\<exists>st'. pack mn m ss st = Inr st' \<and> out_words st' = out_words st @ concat (map split_ws ss)"
proof (induction ss arbitrary: st)
  case Nil
  then show ?case by simp
next
  case (Cons s ss)
  from step_words [OF assms, of mn s st] obtain st1
    where "step mn m s st = Inr st1" "out_words st1 = out_words st @ split_ws s" by blast
  with Cons [of st1] show ?case by auto
qed

lemma chunk_sentences_words:
  assumes "0 < m"
  shows "\<exists>cs. chunk_sentences mn m ss = Inr cs \<and> concat (map split_ws cs) = concat (map split_ws ss)"
proof -
  from pack_words [OF assms, of mn ss init] obtain st
    where st: "pack mn m ss init = Inr st" "out_words st = concat (map split_ws ss)"
    by (auto simp: out_words_def init_def)
  have "concat (map split_ws (chunks (flush_if_any st))) = out_words (flush_if_any st)"
    by (simp add: out_words_def)
  with st show ?thesis
    by (simp add: chunk_sentences_def flush_if_any_words flush_if_any_def [symmetric])
qed

subsection \<open>Sizes of the windows\<close>

lemma chop_Nil_iff: "0 < k \<Longrightarrow> chop k xs = [] \<longleftrightarrow> xs = []"
  by (cases "xs = []") (simp_all add: chop_step)

lemma chop_length: "0 < k \<Longrightarrow> length (chop k xs) = (length xs + k - 1) div k"
proof (induction k xs rule: chop.induct)
  case (1 k xs)
  show ?case
  proof (cases "xs = []")
    case True
    with 1(2) show ?thesis by simp
  next
    case False
    with 1 have ih: "length (chop k (drop k xs)) = (length xs - k + k - 1) div k" by simp
    show ?thesis
    proof (cases "k \<le> length xs")
      case True
      then have "length xs + k - 1 = (length xs - k + k - 1) + k" using 1(2) by simp
      then have "(length xs + k - 1) div k = (length xs - k + k - 1) div k + 1"
        using 1(2) by (simp only: div_add_self2)
      with ih False 1(2) show ?thesis by (simp add: chop_step)
    next
      case False
      with \<open>xs \<noteq> []\<close> have lt: "length xs - 1 < k" and pos: "0 < length xs" and d: "drop k xs = []"
        by simp_all
      from pos have "length xs + k - 1 = (length xs - 1) + k" by arith
      then have "(length xs + k - 1) div k = (length xs - 1) div k + 1"
        using 1(2) by (simp only: div_add_self2)
      with lt have "(length xs + k - 1) div k = 1" by simp
      with d \<open>xs \<noteq> []\<close> 1(2) show ?thesis by (simp add: chop_step)
    qed
  qed
qed

lemma chop_nth_length:
  "0 < k \<Longrightarrow> j < length (chop k xs) \<Longrightarrow>
   length (chop k xs ! j) =
     (if Suc j < length (chop k xs) then k
      else if length xs mod k = 0 then k else length xs mod k)"
proof (induction k xs arbitrary: j rule: chop.induct)
  case (1 k xs)
  show ?case
  proof (cases "xs = []")
    case True
    with 1(3) show ?thesis by simp
  next
    case False
    with 1(2) have L: "chop k xs = take k xs # chop k (drop k xs)" by (rule chop_step)
    have ne: "chop k (drop k xs) = [] \<longleftrightarrow> length xs \<le> k"
      using chop_Nil_iff [OF 1(2), of "drop k xs"] by simp
    show ?thesis
    proof (cases j)
      case 0
      show ?thesis
      proof (cases "length xs \<le> k")
        case True
        with ne have e: "chop k (drop k xs) = []" by simp
        from True False have "length xs mod k = 0 \<longleftrightarrow> length xs = k"
          by (cases "length xs = k") auto
        with True e L 0 show ?thesis by (auto simp: min_def)
      next
        case False
        with ne L 0 show ?thesis by (auto simp: min_def)
      qed
    next
      case (Suc j')
      with 1(3) L have j': "j' < length (chop k (drop k xs))" by simp
      then have "chop k (drop k xs) \<noteq> []" by auto
      with ne have gt: "k < length xs" by simp
      then have m: "(length xs - k) mod k = length xs mod k"
        by (simp add: le_mod_geq)
      from 1(1) [OF _ 1(2) j'] False 1(2)
      have "length (chop k (drop k xs) ! j') =
          (if Suc j' < length (chop k (drop k xs)) then k
           else if (length xs - k) mod k = 0 then k else (length xs - k) mod k)" by simp
      with L Suc m show ?thesis by simp
    qed
  qed
qed

lemma split_ws_join_chop:
  "0 < k \<Longrightarrow> p \<in> set (chop k (split_ws s)) \<Longrightarrow> split_ws (join_sp p) = p"
proof -
  assume "0 < k" "p \<in> set (chop k (split_ws s))"
  then have "set p \<subseteq> set (split_ws s)" using chop_parts [of k p "split_ws s"] by simp
  then have "\<forall>w\<in>set p. wordlike w" using split_ws_wordlike by blast
  then show ?thesis by (rule split_ws_join_words)
qed

lemma oversized_parts_length:
  "0 < m \<Longrightarrow> int (length (oversized_parts s m)) = (int (length (split_ws s)) + m - 1) div m"
proof -
  assume m: "0 < m"
  then have k: "0 < nat m" by simp
  have "int ((length (split_ws s) + nat m - 1) div nat m) =
      (int (length (split_ws s)) + m - 1) div m"
    using m by (simp add: zdiv_int of_nat_diff)
  with m chop_length [OF k, of "split_ws s"] show ?thesis
    by (simp add: oversized_parts_chop)
qed

lemma oversized_parts_nth:
  assumes "0 < m" and "j < length (oversized_parts s m)"
  shows "int (length (split_ws (oversized_parts s m ! j))) =
     (if Suc j < length (oversized_parts s m) then m
      else if int (length (split_ws s)) mod m = 0 then m else int (length (split_ws s)) mod m)"
proof -
  from assms(1) have k: "0 < nat m" by simp
  let ?C = "chop (nat m) (split_ws s)"
  from assms have j: "j < length ?C" by (simp add: oversized_parts_chop)
  then have "?C ! j \<in> set ?C" by simp
  from split_ws_join_chop [OF k this] j assms(1)
  have "split_ws (oversized_parts s m ! j) = ?C ! j" by (simp add: oversized_parts_chop)
  moreover have "int (length (split_ws s) mod nat m) = int (length (split_ws s)) mod m"
    using assms(1) by (simp add: zmod_int)
  moreover have "length (oversized_parts s m) = length ?C"
    using assms(1) by (simp add: oversized_parts_chop)
  ultimately show ?thesis
    using chop_nth_length [OF k j] assms(1)
    by (auto simp: nat_eq_iff split: if_splits)
qed

lemma oversized_parts_bound:
  "0 < m \<Longrightarrow> c \<in> set (oversized_parts s m) \<Longrightarrow> int (length (split_ws c)) \<le> m"
proof -
  assume m: "0 < m" and "c \<in> set (oversized_parts s m)"
  then obtain p where p: "p \<in> set (chop (nat m) (split_ws s))" "c = join_sp p"
    by (auto simp: oversized_parts_chop)
  from m have k: "0 < nat m" by simp
  from chop_parts [OF k p(1)] have "length p \<le> nat m" by simp
  with m have "int (length p) \<le> m" by linarith
  with split_ws_join_chop [OF k p(1)] p(2) show ?thesis by simp
qed

subsection \<open>The bound on the chunks\<close>

lemma flushed_words: "int (length (split_ws (strip (join_sp X)))) = wsum X"
  by (simp add: split_ws_strip split_ws_join wsum_def)

lemma bounded_flush: "0 \<le> m \<Longrightarrow> bounded m st \<Longrightarrow> bounded m (flush st)"
  by (simp add: bounded_def flush_def flushed_words)

lemma bounded_flush_if_any: "0 \<le> m \<Longrightarrow> bounded m st \<Longrightarrow> bounded m (flush_if_any st)"
  by (simp add: flush_if_any_def bounded_flush)

lemma flush_if_any_count: "bounded m st \<Longrightarrow> word_count (flush_if_any st) = 0"
  by (auto simp: flush_if_any_def flush_def bounded_def)

lemma step_bounded:
  assumes "0 < m" and "bounded m st"
  shows "\<exists>st'. step mn m s st = Inr st' \<and> bounded m st'"
  using assms(1)
proof (cases rule: step_cases [of m s mn st])
  case oversized
  from assms have b: "bounded m (flush_if_any st)" by (simp add: bounded_flush_if_any)
  with oversized(2) oversized_parts_bound [OF assms(1), of _ s] show ?thesis
    by (auto simp: bounded_def)
next
  case overflow
  from assms have "bounded m (flush st)" by (simp add: bounded_flush)
  with overflow show ?thesis by (simp add: bounded_def)
next
  case append
  with assms(2) show ?thesis by (simp add: bounded_def)
qed

lemma pack_bounded:
  assumes "0 < m"
  shows "bounded m st \<Longrightarrow> \<exists>st'. pack mn m ss st = Inr st' \<and> bounded m st'"
  using step_bounded [OF assms]
  by (rule pack_invariant [where I = "\<lambda>ss. bounded m"])

lemma chunk_sentences_bounded:
  assumes "0 < m"
  shows "\<exists>cs. chunk_sentences mn m ss = Inr cs \<and> (\<forall>c\<in>set cs. int (length (split_ws c)) \<le> m)"
proof -
  have "bounded m init" using assms by (simp add: bounded_def init_def)
  from pack_bounded [OF assms this, of mn ss] obtain st
    where st: "pack mn m ss init = Inr st" "bounded m st" by blast
  from st(2) assms have "bounded m (flush_if_any st)" by (simp add: bounded_flush_if_any)
  with st(1) show ?thesis
    by (simp add: chunk_sentences_def flush_if_any_def [symmetric] bounded_def)
qed

subsection \<open>The minimum is not used\<close>

lemma step_min_words: "step a m s st = step b m s st"
  by (simp add: step_def)

lemma pack_min_words: "pack a m ss st = pack b m ss st"
proof (induction ss arbitrary: st)
  case Nil
  then show ?case by simp
next
  case (Cons s ss)
  then show ?case using step_min_words [of a m s st b] by (simp split: sum.splits)
qed

lemma chunk_sentences_min_words: "chunk_sentences a m ss = chunk_sentences b m ss"
  using pack_min_words [of a m ss init b] by (simp add: chunk_sentences_def)

subsection \<open>Sentences that fit\<close>

lemma pack_fits:
  "0 \<le> word_count st \<Longrightarrow> word_count st + wsum X \<le> m \<Longrightarrow>
   pack mn m X st =
     Inr (st\<lparr>current := current st @ X, word_count := word_count st + wsum X\<rparr>)"
proof (induction X arbitrary: st)
  case Nil
  then show ?case by simp
next
  case (Cons s X)
  let ?w = "int (length (split_ws s))"
  let ?st = "st\<lparr>current := current st @ [s], word_count := word_count st + ?w\<rparr>"
  from Cons.prems wsum_nonneg [of X] have a: "?w \<le> m" "word_count st + ?w \<le> m" by simp_all
  then have s: "step mn m s st = Inr ?st" by (rule step_append)
  from Cons.prems have "0 \<le> word_count ?st" "word_count ?st + wsum X \<le> m" by simp_all
  from Cons.IH [OF this] s show ?case by (simp add: add.assoc)
qed

subsection \<open>Well-formed chunks\<close>

lemma strip_idem: "strip (strip t) = strip t"
proof (cases "strip t = []")
  case True
  have "strip [] = []" by (simp add: strip_def)
  with True show ?thesis by simp
next
  case False
  with strip_last [of t] have "\<not> isspace (last (strip t))" by simp
  with False have "\<not> isspace (hd (rev (strip t)))" by (simp add: hd_rev)
  with False have "dropWhile isspace (rev (strip t)) = rev (strip t)"
    by (cases "rev (strip t)") simp_all
  then have "rev (dropWhile isspace (rev (dropWhile isspace (strip t)))) = strip t"
    by (simp add: strip_hd)
  then show ?thesis by (simp add: strip_def [of "strip t"])
qed

lemma strip_ne: "split_ws t \<noteq> [] \<Longrightarrow> strip t \<noteq> []"
  using split_ws_strip [of t] by auto

lemma trimmed_flushed: "X \<noteq> [] \<Longrightarrow> \<forall>s\<in>set X. split_ws s \<noteq> [] \<Longrightarrow> trimmed (strip (join_sp X))"
proof -
  assume "X \<noteq> []" "\<forall>s\<in>set X. split_ws s \<noteq> []"
  then have "concat (map split_ws X) \<noteq> []" by (cases X) auto
  then have "split_ws (join_sp X) \<noteq> []" by (simp add: split_ws_join)
  then show ?thesis by (simp add: trimmed_def strip_idem strip_ne)
qed

lemma well_formed_flush: "well_formed st \<Longrightarrow> well_formed (flush st)"
  by (simp add: well_formed_def flush_def trimmed_flushed)

lemma well_formed_flush_if_any: "well_formed st \<Longrightarrow> well_formed (flush_if_any st)"
  by (simp add: flush_if_any_def well_formed_flush)

lemma clean_trimmed: "clean c \<Longrightarrow> trimmed c"
  by (simp add: trimmed_def strip_clean) (simp add: clean_def)

lemma oversized_parts_clean:
  assumes "0 < m" and "c \<in> set (oversized_parts s m)"
  shows "clean c"
proof -
  from assms obtain p where p: "p \<in> set (chop (nat m) (split_ws s))" "c = join_sp p"
    by (auto simp: oversized_parts_chop)
  from assms(1) have k: "0 < nat m" by simp
  from chop_parts [OF k p(1)] have "p \<noteq> []" "set p \<subseteq> set (split_ws s)" by simp_all
  then have "p \<noteq> []" "\<forall>w\<in>set p. wordlike w" using split_ws_wordlike by blast+
  then show ?thesis unfolding p(2) by (rule clean_join_words)
qed

lemma step_well_formed:
  assumes "0 < m" and "split_ws s \<noteq> []" and "well_formed st"
  shows "\<exists>st'. step mn m s st = Inr st' \<and> well_formed st'"
  using assms(1)
proof (cases rule: step_cases [of m s mn st])
  case oversized
  from assms(3) have "well_formed (flush_if_any st)" by (rule well_formed_flush_if_any)
  with oversized(2) oversized_parts_clean [OF assms(1), of _ s] show ?thesis
    by (auto simp: well_formed_def dest: clean_trimmed)
next
  case overflow
  from assms(3) have "well_formed (flush st)" by (rule well_formed_flush)
  with overflow assms(2) show ?thesis by (simp add: well_formed_def)
next
  case append
  with assms(2,3) show ?thesis by (simp add: well_formed_def)
qed

lemma pack_well_formed:
  assumes "0 < m"
  shows "(\<forall>s\<in>set ss. split_ws s \<noteq> []) \<and> well_formed st \<Longrightarrow>
    \<exists>st'. pack mn m ss st = Inr st' \<and> (\<forall>s\<in>set []. split_ws s \<noteq> []) \<and> well_formed st'"
proof (rule pack_invariant [where I = "\<lambda>ss st. (\<forall>s\<in>set ss. split_ws s \<noteq> []) \<and> well_formed st"])
  fix s ss st
  assume "(\<forall>s\<in>set (s # ss). split_ws s \<noteq> []) \<and> well_formed st"
  then have a: "split_ws s \<noteq> []" "well_formed st" "\<forall>s\<in>set ss. split_ws s \<noteq> []" by simp_all
  from step_well_formed [OF assms a(1,2), of mn] a(3)
  show "\<exists>st'. step mn m s st = Inr st' \<and> (\<forall>s\<in>set ss. split_ws s \<noteq> []) \<and> well_formed st'"
    by blast
qed

lemma chunk_sentences_well_formed:
  assumes "0 < m" and "\<forall>s\<in>set ss. split_ws s \<noteq> []"
  shows "\<exists>cs. chunk_sentences mn m ss = Inr cs \<and> (\<forall>c\<in>set cs. trimmed c)"
proof -
  have "well_formed init" by (simp add: well_formed_def init_def)
  with assms(2) pack_well_formed [OF assms(1), of ss init mn] obtain st
    where st: "pack mn m ss init = Inr st" "well_formed st" by blast
  from st(2) have "well_formed (flush_if_any st)" by (rule well_formed_flush_if_any)
  with st(1) show ?thesis
    by (simp add: chunk_sentences_def flush_if_any_def [symmetric] well_formed_def)
qed

lemma good_seq_words: "good_seq X \<Longrightarrow> \<forall>s\<in>set X. split_ws s \<noteq> []"
  by (auto simp: good_seq_def single_sentence_def dest: clean_words_ne)

subsection \<open>Chunks that are already there\<close>

lemma flush_chunks_prefix:
  "flush (st\<lparr>chunks := C @ chunks st\<rparr>) = (flush st)\<lparr>chunks := C @ chunks (flush st)\<rparr>"
  by (simp add: flush_def)

lemma step_chunks_prefix:
  "step mn m s (st\<lparr>chunks := C @ chunks st\<rparr>) =
     (case step mn m s st of
        Inl e \<Rightarrow> Inl e
      | Inr st' \<Rightarrow> Inr (st'\<lparr>chunks := C @ chunks st'\<rparr>))"
proof -
  have e: "emit_windows ws m is (C @ cks) = C @ emit_windows ws m is cks" for ws "is" cks
    using emit_windows_acc [of ws m "is" "C @ cks"] emit_windows_acc [of ws m "is" cks] by simp
  show ?thesis
    by (simp add: step_def Let_def flush_def e split: sum.splits)
qed

lemma pack_chunks_prefix:
  "pack mn m ss (st\<lparr>chunks := C @ chunks st\<rparr>) =
     (case pack mn m ss st of
        Inl e \<Rightarrow> Inl e
      | Inr st' \<Rightarrow> Inr (st'\<lparr>chunks := C @ chunks st'\<rparr>))"
proof (induction ss arbitrary: st)
  case Nil
  then show ?case by simp
next
  case (Cons s ss)
  show ?case
  proof (cases "step mn m s st")
    case (Inl e)
    then show ?thesis by (simp add: step_chunks_prefix)
  next
    case (Inr st1)
    with Cons [of st1] show ?thesis by (simp add: step_chunks_prefix)
  qed
qed

subsection \<open>Rounding up\<close>

lemma ceil_div_int:
  fixes w m :: int
  assumes m: "0 < m"
  shows "- (- w div m) = (w + m - 1) div m"
proof (cases "w mod m = 0")
  case True
  have "w = m * (w div m) + w mod m" by simp
  with True have "w = m * (w div m)" by simp
  then have "w + m - 1 = m * (w div m) + (m - 1)" by simp
  then have "(w + m - 1) div m = w div m"
    using m int_div_pos_eq [of "w + m - 1" m "w div m" "m - 1"] by simp
  moreover from True m have "- w div m = - (w div m)" by (simp add: zdiv_zminus1_eq_if)
  ultimately show ?thesis by simp
next
  case False
  from m have "0 \<le> w mod m" "w mod m < m" by simp_all
  with False have r: "0 < w mod m" "w mod m < m" by linarith+
  have "w = m * (w div m) + w mod m" by simp
  then have "w + m - 1 = m * (w div m + 1) + (w mod m - 1)" by (simp add: algebra_simps)
  then have "(w + m - 1) div m = w div m + 1"
    using r int_div_pos_eq [of "w + m - 1" m "w div m + 1" "w mod m - 1"] by simp
  moreover from False m have "- w div m = - (w div m) - 1" by (simp add: zdiv_zminus1_eq_if)
  ultimately show ?thesis by simp
qed

subsection \<open>An oversized sentence between other sentences\<close>

lemma chunk_sentences_oversized:
  assumes m: "0 < m" and big: "m < int (length (split_ws s))"
  shows "\<exists>a b. chunk_sentences mn m pre = Inr a \<and> chunk_sentences mn m post = Inr b \<and>
           chunk_sentences mn m (pre @ s # post) = Inr (a @ oversized_parts s m @ b)"
proof -
  have bi: "bounded m init" using m by (simp add: bounded_def init_def)
  from pack_bounded [OF m bi, of mn pre] obtain st1
    where st1: "pack mn m pre init = Inr st1" "bounded m st1" by blast
  from pack_bounded [OF m bi, of mn post] obtain st3
    where st3: "pack mn m post init = Inr st3" by blast
  let ?a = "chunks (flush_if_any st1)"
  let ?b = "chunks (flush_if_any st3)"
  let ?P = "oversized_parts s m"
  let ?st2 = "(flush_if_any st1)\<lparr>chunks := ?a @ ?P\<rparr>"
  have s2: "step mn m s st1 = Inr ?st2" using m big by (rule step_oversized)
  have "?st2 = init\<lparr>chunks := (?a @ ?P) @ chunks init\<rparr>"
    using flush_if_any_count [OF st1(2)] by (simp add: init_def)
  then have "pack mn m post ?st2 = Inr (st3\<lparr>chunks := (?a @ ?P) @ chunks st3\<rparr>)"
    using pack_chunks_prefix [of mn m post "?a @ ?P" init] st3 by simp
  with st1(1) s2
  have "pack mn m (pre @ s # post) init = Inr (st3\<lparr>chunks := (?a @ ?P) @ chunks st3\<rparr>)"
    by (simp add: pack_append)
  then have "chunk_sentences mn m (pre @ s # post) = Inr (?a @ ?P @ ?b)"
    by (simp add: chunk_sentences_def flush_if_any_def flush_def)
  moreover have "chunk_sentences mn m pre = Inr ?a" "chunk_sentences mn m post = Inr ?b"
    using st1(1) st3 by (simp_all add: chunk_sentences_def flush_if_any_def)
  ultimately show ?thesis by blast
qed

lemma step_oversized_chunks:
  assumes m: "0 < m" and big: "m < int (length (split_ws s))"
  shows "\<exists>st'. step mn m s st = Inr st' \<and> current st' = [] \<and>
     chunks st' = chunks st @ (if current st \<noteq> [] then [strip (join_sp (current st))] else []) @
                  oversized_parts s m"
  using step_oversized [OF m big, of mn st] by (simp add: flush_if_any_def flush_def)

subsection \<open>Chunking a chunk again\<close>

lemma good_seq_append_left: "good_seq (A @ B) \<Longrightarrow> good_seq A"
  by (auto simp: good_seq_def butlast_append dest: in_set_butlastD split: if_splits)

lemma good_seq_append_right: "good_seq (A @ B) \<Longrightarrow> good_seq B"
  by (auto simp: good_seq_def butlast_append split: if_splits)

lemma stable_join:
  assumes m: "0 < m" and ne: "X \<noteq> []" and g: "good_seq X" and w: "wsum X \<le> m"
  shows "stable mn m (strip (join_sp X))"
proof -
  from good_seq_join [OF ne g]
  have r: "re_split_terminal (join_sp X) = X" and c: "clean (join_sp X)" by simp_all
  from c have s: "strip (join_sp X) = join_sp X" by (rule strip_clean)
  from c have n: "re_sub_ws (strip (join_sp X)) = join_sp X" by (rule clean_normal)
  from c have "join_sp X \<noteq> []" by (simp add: clean_def)
  with n r have ss: "split_sentences (join_sp X) = X" by (simp add: split_sentences_def)
  have "pack mn m X init = Inr (init\<lparr>current := current init @ X,
      word_count := word_count init + wsum X\<rparr>)"
    using w by (intro pack_fits) (simp_all add: init_def)
  with ne have "chunk_sentences mn m X = Inr [strip (join_sp X)]"
    by (simp add: chunk_sentences_def init_def flush_def)
  with ss s c show ?thesis by (simp add: stable_def chunk_text_def)
qed

lemma single_words:
  "ws \<noteq> [] \<Longrightarrow> \<forall>w\<in>set ws. wordlike w \<Longrightarrow>
   (re_split_terminal (join_sp ws) = [join_sp ws]) =
   (\<forall>w\<in>set (butlast ws). \<not> is_terminal (last w))"
proof (induction ws rule: join_sp.induct)
  case 1
  then show ?case by simp
next
  case (2 w)
  then show ?case by (simp add: re_split_word wordlike_def)
next
  case (3 w v vs)
  let ?Y = "join_sp (v # vs)"
  let ?R = "re_split_terminal ?Y"
  from 3 have w: "wordlike w" and vs: "\<forall>w\<in>set (v # vs). wordlike w" by simp_all
  from 3 vs have ih: "(?R = [?Y]) = (\<forall>w\<in>set (butlast (v # vs)). \<not> is_terminal (last w))"
    by simp
  have cY: "clean ?Y" using vs by (intro clean_join_words) simp_all
  then have "?Y \<noteq> []" by (simp add: clean_def)
  then obtain x X where Y: "?Y = x # X" by (cases ?Y) auto
  with cY have x: "\<not> isspace x" using clean_hd [of ?Y] by simp
  from w have wn: "\<forall>c\<in>set w. \<not> isspace c" "w \<noteq> []" by (simp_all add: wordlike_def)
  obtain p ps where R: "?R = p # ps" using re_split_ne [of ?Y] by (cases ?R) auto
  have split: "re_split_terminal (join_sp (w # v # vs)) =
     (if is_terminal (last w) then w # ?R else (w @ SP # p) # ps)"
    using re_split_word_space [OF wn(1) x, of X] wn(2) Y R by simp
  show ?case
  proof (cases "is_terminal (last w)")
    case True
    with split R show ?thesis by simp
  next
    case False
    with split have "(re_split_terminal (join_sp (w # v # vs)) = [join_sp (w # v # vs)]) =
        (?R = [?Y])" using R by auto
    with ih False show ?thesis by simp
  qed
qed

lemma chop_butlast:
  "0 < k \<Longrightarrow> p \<in> set (chop k xs) \<Longrightarrow> set (butlast p) \<subseteq> set (butlast xs)"
proof (induction k xs rule: chop.induct)
  case (1 k xs)
  show ?case
  proof (cases "xs = []")
    case True
    with 1 show ?thesis by simp
  next
    case False
    with 1(2,3) have "p = take k xs \<or> p \<in> set (chop k (drop k xs))"
      by (simp add: chop_step)
    then show ?thesis
    proof
      assume p: "p = take k xs"
      have "butlast (take k xs) = take (min (length (take k xs) - 1) k) xs"
        by (simp add: butlast_conv_take min.commute)
      moreover have "min (length (take k xs) - 1) k \<le> length xs - 1" by auto
      ultimately have "set (butlast (take k xs)) \<subseteq> set (take (length xs - 1) xs)"
        using set_take_subset_set_take [of "min (length (take k xs) - 1) k" "length xs - 1" xs]
        by simp
      with p show ?thesis by (simp add: butlast_conv_take)
    next
      assume "p \<in> set (chop k (drop k xs))"
      with 1(1) [OF _ 1(2)] False 1(2)
      have "set (butlast p) \<subseteq> set (butlast (drop k xs))" by simp
      also have "\<dots> \<subseteq> set (butlast xs)"
        by (simp add: butlast_drop set_drop_subset)
      finally show ?thesis .
    qed
  qed
qed

lemma stable_window:
  assumes m: "0 < m" and s: "single_sentence s" and c: "c \<in> set (oversized_parts s m)"
  shows "stable mn m c"
proof -
  from m have k: "0 < nat m" by simp
  from c m obtain p where p: "p \<in> set (chop (nat m) (split_ws s))" "c = join_sp p"
    by (auto simp: oversized_parts_chop)
  from chop_parts [OF k p(1)]
  have pn: "p \<noteq> []" and pl: "length p \<le> nat m" and ps: "set p \<subseteq> set (split_ws s)" by simp_all
  from ps have pw: "\<forall>w\<in>set p. wordlike w" using split_ws_wordlike by blast
  have sw: "\<forall>w\<in>set (split_ws s). wordlike w" using split_ws_wordlike by blast
  from s have cs: "clean s" and rs: "re_split_terminal s = [s]"
    by (simp_all add: single_sentence_def)
  from cs have js: "join_sp (split_ws s) = s" and ne: "split_ws s \<noteq> []"
    by (simp_all add: clean_def clean_words_ne)
  from single_words [OF ne sw] rs js
  have "\<forall>w\<in>set (butlast (split_ws s)). \<not> is_terminal (last w)" by simp
  with chop_butlast [OF k p(1)] have "\<forall>w\<in>set (butlast p). \<not> is_terminal (last w)" by blast
  with single_words [OF pn pw] have "re_split_terminal (join_sp p) = [join_sp p]" by simp
  moreover have cp: "clean (join_sp p)" using pn pw by (rule clean_join_words)
  ultimately have g: "good_seq [c]" by (simp add: p(2) good_seq_def single_sentence_def)
  from pl m have "int (length p) \<le> m" by linarith
  then have "wsum [c] \<le> m" using pw by (simp add: p(2) split_ws_join_words)
  from stable_join [OF m _ g this, of mn] cp show ?thesis
    by (simp add: p(2) strip_clean)
qed

lemma stable_flush:
  assumes "0 < m" and "rechunkable mn m ss st"
  shows "\<forall>c\<in>set (chunks (flush st)). stable mn m c"
proof (cases "current st = []")
  case True
  with assms(2) show ?thesis by (simp add: flush_def rechunkable_def)
next
  case False
  from assms(2) have "good_seq (current st)" "wsum (current st) \<le> m"
    by (auto simp: rechunkable_def bounded_def dest: good_seq_append_left)
  from stable_join [OF assms(1) False this, of mn] assms(2) False show ?thesis
    by (simp add: flush_def rechunkable_def)
qed

lemma step_rechunkable:
  assumes m: "0 < m" and r: "rechunkable mn m (s # ss) st"
  shows "\<exists>st'. step mn m s st = Inr st' \<and> rechunkable mn m ss st'"
proof -
  from r have b: "bounded m st" and g: "good_seq (current st @ s # ss)"
    by (simp_all add: rechunkable_def)
  from g have g1: "good_seq (s # ss)" by (rule good_seq_append_right)
  then have g2: "good_seq ss" using good_seq_append_right [of "[s]" ss] by simp
  from g1 have ss: "single_sentence s" by (simp add: good_seq_def)
  from step_bounded [OF m b, of mn s] obtain st' where
    st': "step mn m s st = Inr st'" "bounded m st'" by blast
  have "(\<forall>c\<in>set (chunks st'). stable mn m c) \<and> good_seq (current st' @ ss)"
    using m
  proof (cases rule: step_cases [of m s mn st])
    case oversized
    have "\<forall>c\<in>set (chunks (flush_if_any st)). stable mn m c"
      using stable_flush [OF m r] r by (simp add: flush_if_any_def rechunkable_def)
    with oversized(2) st'(1) stable_window [OF m ss, of _ mn] g2 show ?thesis by auto
  next
    case overflow
    with st'(1) stable_flush [OF m r] g1 show ?thesis by auto
  next
    case append
    with st'(1) r g show ?thesis by (auto simp: rechunkable_def)
  qed
  with st' show ?thesis by (simp add: rechunkable_def)
qed

lemma chunk_sentences_stable:
  assumes m: "0 < m" and g: "good_seq ss"
  shows "\<exists>cs. chunk_sentences mn m ss = Inr cs \<and> (\<forall>c\<in>set cs. stable mn m c)"
proof -
  have "rechunkable mn m ss init" using m g by (simp add: rechunkable_def bounded_def init_def)
  from pack_invariant [where I = "rechunkable mn m", OF step_rechunkable [OF m] this]
  obtain st where st: "pack mn m ss init = Inr st" "rechunkable mn m [] st" by blast
  from stable_flush [OF m st(2)] st(2)
  have "\<forall>c\<in>set (chunks (flush_if_any st)). stable mn m c"
    by (simp add: flush_if_any_def rechunkable_def)
  with st(1) show ?thesis by (simp add: chunk_sentences_def flush_if_any_def)
qed

subsection \<open>The splitter against its description\<close>

lemma re_sub_ws_tail:
  "re_sub_ws (dropWhile isspace t) =
     join_sp (split_ws t) @ (if split_ws t \<noteq> [] \<and> isspace (last t) then [SP] else [])"
proof (induction t rule: split_ws.induct)
  case 1
  then show ?case by simp
next
  case (2 c cs)
  show ?case
  proof (cases "isspace c")
    case True
    have "split_ws cs \<noteq> [] \<Longrightarrow> cs \<noteq> []" by auto
    with True 2(1) show ?thesis by auto
  next
    case False
    define w where "w = takeWhile (\<lambda>x. \<not> isspace x) cs"
    define r where "r = dropWhile (\<lambda>x. \<not> isspace x) cs"
    have cs: "cs = w @ r" by (simp add: w_def r_def)
    have w: "\<forall>x\<in>set (c # w). \<not> isspace x"
      using False set_takeWhileD unfolding w_def by fastforce
    have sub: "re_sub_ws (c # cs) = (c # w) @ re_sub_ws r"
      using re_sub_ws_prefix [OF w, of r] cs by simp
    have sp: "split_ws (c # cs) = (c # w) # split_ws r"
      using False by (simp add: w_def r_def)
    show ?thesis
    proof (cases r)
      case Nil
      with cs w have "\<not> isspace (last (c # cs))" by (metis append_Nil2 last_in_set list.discI)
      with Nil sub sp False show ?thesis by simp
    next
      case (Cons s r')
      have s: "isspace s"
        using hd_dropWhile [of "\<lambda>x. \<not> isspace x" cs] Cons unfolding r_def by simp
      from cs Cons have lr: "last (c # cs) = last r" by simp
      from 2(2) False have ih: "re_sub_ws (dropWhile isspace r) =
          join_sp (split_ws r) @ (if split_ws r \<noteq> [] \<and> isspace (last r) then [SP] else [])"
        by (simp add: r_def)
      have rr: "re_sub_ws r = SP # re_sub_ws (dropWhile isspace r)"
        using Cons s by simp
      show ?thesis
      proof (cases "split_ws r")
        case Nil
        then have "\<forall>x\<in>set r. isspace x" by (simp add: split_ws_Nil_iff)
        moreover have "last r \<in> set r" using Cons by simp
        ultimately have "isspace (last r)" by blast
        with Nil ih rr sub sp lr False show ?thesis by simp
      next
        case (Cons v vs)
        with ih rr sub sp lr False show ?thesis by simp
      qed
    qed
  qed
qed

lemma re_sub_ws_head:
  "re_sub_ws t = (if t \<noteq> [] \<and> isspace (hd t) then [SP] else []) @ re_sub_ws (dropWhile isspace t)"
  by (cases t) simp_all

lemma strip_Nil [simp]: "strip [] = []"
  by (simp add: strip_def)

lemma strip_pad:
  assumes a: "\<forall>c\<in>set a. isspace c" and b: "\<forall>c\<in>set b. isspace c"
  shows "strip (a @ u @ b) = strip u"
proof -
  from a have 1: "dropWhile isspace (a @ u @ b) = dropWhile isspace (u @ b)"
    by (intro dropWhile_append2) simp
  show ?thesis
  proof (cases "\<forall>c\<in>set u. isspace c")
    case True
    with b have 2: "dropWhile isspace (u @ b) = []" and 3: "dropWhile isspace u = []"
      by simp_all
    show ?thesis unfolding strip_def 1 2 3 ..
  next
    case False
    then obtain x where "x \<in> set u" "\<not> isspace x" by blast
    then have "dropWhile isspace (u @ b) = dropWhile isspace u @ b"
      by (rule dropWhile_append1)
    moreover from b have "dropWhile isspace (rev b @ rev (dropWhile isspace u)) =
        dropWhile isspace (rev (dropWhile isspace u))"
      by (intro dropWhile_append2) simp
    ultimately show ?thesis unfolding strip_def 1 by (simp only: rev_append)
  qed
qed

lemma normalise_spec_words: "normalise_spec t = join_sp (split_ws t)"
proof -
  let ?N = "join_sp (split_ws t)"
  define a where "a = (if t \<noteq> [] \<and> isspace (hd t) then [SP] else [])"
  define b where "b = (if split_ws t \<noteq> [] \<and> isspace (last t) then [SP] else [])"
  have ra: "\<forall>c\<in>set a. isspace c" and rb: "\<forall>c\<in>set b. isspace c"
    by (simp_all add: a_def b_def)
  have "re_sub_ws t = a @ re_sub_ws (dropWhile isspace t)"
    unfolding a_def by (rule re_sub_ws_head)
  also have "re_sub_ws (dropWhile isspace t) = ?N @ b"
    unfolding b_def by (rule re_sub_ws_tail)
  finally have "strip (re_sub_ws t) = strip (a @ ?N @ b)" by (simp only:)
  also have "\<dots> = strip ?N" using ra rb by (rule strip_pad)
  also have "strip ?N = ?N"
  proof (cases "split_ws t = []")
    case True
    then show ?thesis by simp
  next
    case False
    moreover have "\<forall>w\<in>set (split_ws t). wordlike w" using split_ws_wordlike by blast
    ultimately have "clean ?N" by (rule clean_join_words)
    then show ?thesis by (rule strip_clean)
  qed
  finally show ?thesis by (simp only: normalise_spec_def)
qed

lemma normalise_spec_code: "re_sub_ws (strip t) = normalise_spec t"
  by (simp add: normalise_words normalise_spec_words)

lemma has_boundary_nth:
  "has_boundary s \<longleftrightarrow> (\<exists>i. Suc i < length s \<and> is_terminal (s ! i) \<and> isspace (s ! Suc i))"
proof (induction s rule: has_boundary.induct)
  case (1 c d cs)
  have "(\<exists>i. Suc i < length (c # d # cs) \<and> is_terminal ((c # d # cs) ! i) \<and>
            isspace ((c # d # cs) ! Suc i)) \<longleftrightarrow>
        (is_terminal c \<and> isspace d) \<or>
        (\<exists>i. Suc i < length (d # cs) \<and> is_terminal ((d # cs) ! i) \<and> isspace ((d # cs) ! Suc i))"
    (is "?L \<longleftrightarrow> ?A \<or> ?R")
  proof
    assume ?L
    then obtain i where i: "Suc i < length (c # d # cs)" "is_terminal ((c # d # cs) ! i)"
      "isspace ((c # d # cs) ! Suc i)" by blast
    show "?A \<or> ?R"
    proof (cases i)
      case 0
      with i show ?thesis by simp
    next
      case (Suc j)
      with i have "Suc j < length (d # cs) \<and> is_terminal ((d # cs) ! j) \<and>
          isspace ((d # cs) ! Suc j)" by simp
      then show ?thesis by blast
    qed
  next
    assume "?A \<or> ?R"
    then show ?L
    proof
      assume ?A
      then have "Suc 0 < length (c # d # cs) \<and> is_terminal ((c # d # cs) ! 0) \<and>
          isspace ((c # d # cs) ! Suc 0)" by simp
      then show ?L by blast
    next
      assume ?R
      then obtain j where "Suc j < length (d # cs)" "is_terminal ((d # cs) ! j)"
        "isspace ((d # cs) ! Suc j)" by blast
      then have "Suc (Suc j) < length (c # d # cs) \<and> is_terminal ((c # d # cs) ! Suc j) \<and>
          isspace ((c # d # cs) ! Suc (Suc j))" by simp
      then show ?L by blast
    qed
  qed
  with 1 show ?case by simp
qed simp_all

lemma single_iff_no_boundary: "re_split_terminal s = [s] \<longleftrightarrow> \<not> has_boundary s"
proof (induction s rule: has_boundary.induct)
  case (1 c d cs)
  show ?case
  proof (cases "is_terminal c \<and> isspace d")
    case True
    then show ?thesis by simp
  next
    case False
    then have "\<not> (is_terminal c \<and> d # cs \<noteq> [] \<and> isspace (hd (d # cs)))" by simp
    from re_split_Cons [OF this]
    have "re_split_terminal (c # d # cs) = [c # d # cs] \<longleftrightarrow>
        re_split_terminal (d # cs) = [d # cs]"
      using re_split_ne [of "d # cs"] by (cases "re_split_terminal (d # cs)") auto
    with 1 False show ?thesis by simp
  qed
qed simp_all

lemma sentences_unique:
  assumes "X \<noteq> []" and "join_sp X = join_sp (split_ws t)"
    and "\<forall>s\<in>set X. s \<noteq> [] \<and> join_sp (split_ws s) = s \<and> \<not> has_boundary s"
    and "\<forall>s\<in>set (butlast X). is_terminal (last s)"
  shows "X = split_sentences t"
proof -
  from assms(3,4) have g: "good_seq X"
    by (simp add: good_seq_def single_sentence_def clean_def single_iff_no_boundary)
  from good_seq_join [OF assms(1) g]
  have r: "re_split_terminal (join_sp X) = X" and c: "clean (join_sp X)" by simp_all
  from c assms(2) have "split_ws t \<noteq> []" by (auto simp: clean_def)
  from split_sentences_text(1) [OF this] r assms(2) show ?thesis by simp
qed

subsection \<open>The running count of a reached state\<close>

lemma step_count:
  "step mn m s st = Inr st' \<Longrightarrow> word_count st = wsum (current st) \<Longrightarrow>
   word_count st' = wsum (current st')"
  by (auto simp: step_def Let_def flush_def split: if_splits sum.splits)

lemma pack_count:
  "pack mn m ss st = Inr st' \<Longrightarrow> word_count st = wsum (current st) \<Longrightarrow>
   word_count st' = wsum (current st')"
proof (induction ss arbitrary: st)
  case Nil
  then show ?case by simp
next
  case (Cons s ss)
  from Cons.prems(1) obtain st1 where
    st1: "step mn m s st = Inr st1" "pack mn m ss st1 = Inr st'"
    by (auto split: sum.splits)
  from step_count [OF st1(1) Cons.prems(2)] Cons.IH [OF st1(2)] show ?case by simp
qed

lemma reached_count_nonneg: "pack mn m ss init = Inr st \<Longrightarrow> 0 \<le> word_count st"
  using pack_count [of mn m ss init st] wsum_nonneg [of "current st"] by (simp add: init_def)

section \<open>Verified properties of the chunker\<close>

text \<open>
  C1 (lossless repacking). For every input text and every valid configuration
  (\<open>1 \<le> min_words \<le> max_words\<close>), \<open>chunk_text\<close> returns a chunk list, and the
  words of the chunks, concatenated in chunk order, are exactly the words of the
  whitespace-normalised input text: nothing is added, dropped, duplicated or reordered.
\<close>

theorem chunk_text_lossless:
  assumes "1 \<le> min_words" and "min_words \<le> max_words"
  shows "\<exists>cs. chunk_text text min_words max_words = Inr cs \<and>
           concat (map split_ws cs) = split_ws (re_sub_ws (strip text))"
proof -
  from assms have "0 < max_words" by simp
  from chunk_sentences_words [OF this, of min_words "split_sentences text"]
  have "\<exists>cs. chunk_text text min_words max_words = Inr cs \<and>
           concat (map split_ws cs) = split_ws text"
    by (simp add: chunk_text_def split_sentences_words)
  moreover have "split_ws (re_sub_ws (strip text)) = split_ws text"
    using split_ws_wordlike by (simp add: normalise_words split_ws_join_words)
  ultimately show ?thesis by simp
qed

theorem chunk_text_lossless_witness:
  "(1::int) \<le> 2 \<and> (2::int) \<le> 3 \<and>
   chunk_text (py '' a b c  d. e f.  g '') 2 3 = Inr [py ''a b c'', py ''d.'', py ''e f. g''] \<and>
   (\<exists>cs. chunk_text (py '' a b c  d. e f.  g '') 2 3 = Inr cs \<and>
      concat (map split_ws cs) = split_ws (re_sub_ws (strip (py '' a b c  d. e f.  g ''))))"
proof -
  have "chunk_text (py '' a b c  d. e f.  g '') 2 3 = Inr [py ''a b c'', py ''d.'', py ''e f. g'']"
    by code_simp
  then show ?thesis
    using chunk_text_lossless [of 2 3 "py '' a b c  d. e f.  g ''"] by simp
qed

text \<open>
  C2 (bound respected). For every input text and every valid configuration, every chunk
  that \<open>chunk_text\<close> returns has at most \<open>max_words\<close> words. The chunks that the
  oversized-sentence path appends for a sentence \<open>s\<close> are \<open>oversized_parts s max_words\<close>;
  each of them except possibly the last has exactly \<open>max_words\<close> words.
\<close>

theorem chunk_text_bound:
  assumes "1 \<le> min_words" and "min_words \<le> max_words"
  shows "(\<exists>cs. chunk_text text min_words max_words = Inr cs \<and>
            (\<forall>c\<in>set cs. int (length (split_ws c)) \<le> max_words)) \<and>
         (\<forall>s j. max_words < int (length (split_ws s)) \<longrightarrow>
            Suc j < length (oversized_parts s max_words) \<longrightarrow>
            int (length (split_ws (oversized_parts s max_words ! j))) = max_words)"
proof -
  from assms have m: "0 < max_words" by simp
  from chunk_sentences_bounded [OF m, of min_words "split_sentences text"]
  have "\<exists>cs. chunk_text text min_words max_words = Inr cs \<and>
            (\<forall>c\<in>set cs. int (length (split_ws c)) \<le> max_words)"
    by (simp add: chunk_text_def)
  moreover have "int (length (split_ws (oversized_parts s max_words ! j))) = max_words"
    if "Suc j < length (oversized_parts s max_words)" for s j
    using that oversized_parts_nth [OF m, of j s] by simp
  ultimately show ?thesis by blast
qed

theorem chunk_text_bound_witness:
  "(1::int) \<le> 2 \<and> (2::int) \<le> 3 \<and>
   (\<exists>cs. chunk_text (py ''a b c d e f g. h i. j'') 2 3 = Inr cs \<and>
            (\<forall>c\<in>set cs. int (length (split_ws c)) \<le> 3)) \<and>
   3 < int (length (split_ws (py ''a b c d e f g.''))) \<and>
   Suc 0 < length (oversized_parts (py ''a b c d e f g.'') 3) \<and>
   int (length (split_ws (oversized_parts (py ''a b c d e f g.'') 3 ! 0))) = 3 \<and>
   chunk_text (py ''a b c d e f g. h i. j'') 2 3 =
     Inr [py ''a b c'', py ''d e f'', py ''g.'', py ''h i. j'']"
proof -
  have h1: "(1::int) \<le> 2" and h2: "(2::int) \<le> 3" by simp_all
  have h3: "3 < int (length (split_ws (py ''a b c d e f g.'')))" by code_simp
  have h4: "Suc 0 < length (oversized_parts (py ''a b c d e f g.'') 3)" by code_simp
  have e: "chunk_text (py ''a b c d e f g. h i. j'') 2 3 =
     Inr [py ''a b c'', py ''d e f'', py ''g.'', py ''h i. j'']" by code_simp
  note t = chunk_text_bound [OF h1 h2, of "py ''a b c d e f g. h i. j''"]
  from t have a: "\<exists>cs. chunk_text (py ''a b c d e f g. h i. j'') 2 3 = Inr cs \<and>
            (\<forall>c\<in>set cs. int (length (split_ws c)) \<le> 3)" by (rule conjunct1)
  from t h3 h4
  have b: "int (length (split_ws (oversized_parts (py ''a b c d e f g.'') 3 ! 0))) = 3"
    by blast
  show ?thesis by (intro conjI h1 h2 a h3 h4 b e)
qed

text \<open>
  C3 (oversized-window sizing). For a sentence \<open>s\<close> with \<open>w\<close> words, \<open>w > max_words \<ge> 1\<close>,
  one iteration of the loop flushes a non-empty accumulator and appends the chunks
  \<open>oversized_parts s max_words\<close>. There are exactly \<open>\<lceil>w / max_words\<rceil>\<close> of them, their
  words concatenated are the words of \<open>s\<close> in order, and each has \<open>max_words\<close> words except
  the last, which has \<open>w mod max_words\<close> words, or \<open>max_words\<close> when \<open>max_words\<close> divides
  \<open>w\<close>.
\<close>

theorem oversized_window_sizing:
  assumes "1 \<le> max_words" and "max_words < int (length (split_ws s))"
  shows "step min_words max_words s st =
           Inr ((flush_if_any st)\<lparr>chunks :=
                  chunks (flush_if_any st) @ oversized_parts s max_words\<rparr>) \<and>
         int (length (oversized_parts s max_words)) =
           \<lceil>real_of_int (int (length (split_ws s))) / real_of_int max_words\<rceil> \<and>
         concat (map split_ws (oversized_parts s max_words)) = split_ws s \<and>
         (\<forall>j<length (oversized_parts s max_words).
            int (length (split_ws (oversized_parts s max_words ! j))) =
              (if Suc j < length (oversized_parts s max_words) then max_words
               else if int (length (split_ws s)) mod max_words = 0 then max_words
               else int (length (split_ws s)) mod max_words))"
proof -
  from assms(1) have m: "0 < max_words" by simp
  let ?w = "int (length (split_ws s))"
  have "\<lceil>real_of_int ?w / real_of_int max_words\<rceil> = - (- ?w div max_words)"
    by (rule ceiling_divide_eq_div)
  also have "\<dots> = (?w + max_words - 1) div max_words"
    using m by (rule ceil_div_int)
  finally have c: "int (length (oversized_parts s max_words)) =
      \<lceil>real_of_int ?w / real_of_int max_words\<rceil>"
    using oversized_parts_length [OF m, of s] by simp
  from step_oversized [OF m assms(2), of min_words st] c oversized_parts_words [OF m, of s]
    oversized_parts_nth [OF m, of _ s]
  show ?thesis by simp
qed

theorem oversized_window_sizing_witness:
  "(1::int) \<le> 3 \<and> 3 < int (length (split_ws (py ''a b c d e f g''))) \<and>
   step 2 3 (py ''a b c d e f g'') init =
     Inr ((flush_if_any init)\<lparr>chunks :=
            chunks (flush_if_any init) @ oversized_parts (py ''a b c d e f g'') 3\<rparr>) \<and>
   int (length (oversized_parts (py ''a b c d e f g'') 3)) =
     \<lceil>real_of_int (int (length (split_ws (py ''a b c d e f g'')))) / real_of_int 3\<rceil> \<and>
   concat (map split_ws (oversized_parts (py ''a b c d e f g'') 3)) =
     split_ws (py ''a b c d e f g'') \<and>
   2 < length (oversized_parts (py ''a b c d e f g'') 3) \<and>
   int (length (split_ws (oversized_parts (py ''a b c d e f g'') 3 ! 2))) =
     (if Suc 2 < length (oversized_parts (py ''a b c d e f g'') 3) then 3
      else if int (length (split_ws (py ''a b c d e f g''))) mod 3 = 0 then 3
      else int (length (split_ws (py ''a b c d e f g''))) mod 3) \<and>
   oversized_parts (py ''a b c d e f g'') 3 = [py ''a b c'', py ''d e f'', py ''g'']"
proof -
  have h1: "(1::int) \<le> 3" by simp
  have h2: "3 < int (length (split_ws (py ''a b c d e f g'')))" by code_simp
  have h3: "2 < length (oversized_parts (py ''a b c d e f g'') 3)" by code_simp
  have e: "oversized_parts (py ''a b c d e f g'') 3 = [py ''a b c'', py ''d e f'', py ''g'']"
    by code_simp
  note t = oversized_window_sizing [OF h1 h2, of 2 init]
  note a = t [THEN conjunct1]
  note b = t [THEN conjunct2, THEN conjunct1]
  note c = t [THEN conjunct2, THEN conjunct2, THEN conjunct1]
  note d = t [THEN conjunct2, THEN conjunct2, THEN conjunct2, THEN spec, THEN mp, OF h3]
  show ?thesis by (intro conjI h1 h2 a b c h3 d e)
qed

text \<open>
  C4 (\<open>min_words\<close> is inert). For every text and every \<open>max_words \<ge> 1\<close>, any two minimums
  \<open>a\<close> and \<open>b\<close> between 1 and \<open>max_words\<close> give the same result. On overflow (the sentence
  fits alone but not after the accumulated ones) the accumulator is flushed and the
  sentence starts the next one, whatever the running count is compared with the minimum.
\<close>

theorem min_words_inert:
  assumes "1 \<le> max_words"
    and "1 \<le> a" and "a \<le> max_words" and "1 \<le> b" and "b \<le> max_words"
  shows "chunk_text text a max_words = chunk_text text b max_words \<and>
         (\<forall>s st. int (length (split_ws s)) \<le> max_words \<longrightarrow>
            max_words < word_count st + int (length (split_ws s)) \<longrightarrow>
            step a max_words s st =
              Inr \<lparr>chunks = chunks (flush st), current = [s],
                   word_count = int (length (split_ws s))\<rparr>)"
  using chunk_sentences_min_words [of a max_words "split_sentences text" b]
    step_overflow [of _ max_words _ a]
  by (simp add: chunk_text_def)

theorem min_words_inert_witness:
  "(1::int) \<le> 3 \<and> (1::int) \<le> 1 \<and> (1::int) \<le> 3 \<and> (3::int) \<le> 3 \<and>
   chunk_text (py ''a b. c d. e'') 1 3 = chunk_text (py ''a b. c d. e'') 3 3 \<and>
   int (length (split_ws (py ''c d e''))) \<le> 3 \<and>
   3 < word_count \<lparr>chunks = [], current = [py ''a b.''], word_count = 2\<rparr> +
         int (length (split_ws (py ''c d e''))) \<and>
   step 1 3 (py ''c d e'') \<lparr>chunks = [], current = [py ''a b.''], word_count = 2\<rparr> =
     Inr \<lparr>chunks = chunks (flush \<lparr>chunks = [], current = [py ''a b.''], word_count = 2\<rparr>),
          current = [py ''c d e''], word_count = int (length (split_ws (py ''c d e'')))\<rparr> \<and>
   chunk_text (py ''a b. c d. e'') 3 3 = Inr [py ''a b.'', py ''c d. e'']"
proof -
  have h1: "(1::int) \<le> 3" and h2: "(1::int) \<le> 1" and h3: "(3::int) \<le> 3" by simp_all
  have h4: "int (length (split_ws (py ''c d e''))) \<le> 3" by code_simp
  have h5: "3 < word_count \<lparr>chunks = [], current = [py ''a b.''], word_count = 2\<rparr> +
         int (length (split_ws (py ''c d e'')))" by code_simp
  have e: "chunk_text (py ''a b. c d. e'') 3 3 = Inr [py ''a b.'', py ''c d. e'']"
    by code_simp
  note t = min_words_inert [OF h1 h2 h1 h1 h3, of "py ''a b. c d. e''"]
  note a = t [THEN conjunct1]
  note b = t [THEN conjunct2, THEN spec, THEN spec, THEN mp, THEN mp, OF h4 h5]
  show ?thesis by (intro conjI h1 h2 h3 a h4 h5 b e)
qed

text \<open>
  C6 (the overflow test is strict). In a state whose running count is not negative (every
  state the loop reaches, by \<open>reached_count_nonneg\<close>), a sentence \<open>s\<close> with \<open>w\<close> words and
  \<open>word_count + w \<le> max_words\<close>, in particular one that fills the chunk exactly, is
  appended to the accumulator and nothing is flushed; so an iteration that does anything
  else has \<open>word_count + w > max_words\<close>. A run of sentences that together fit is
  accumulated whole.
\<close>

theorem overflow_test_strict:
  assumes "0 \<le> word_count st"
  shows "(word_count st + int (length (split_ws s)) = max_words \<longrightarrow>
            step min_words max_words s st =
              Inr (st\<lparr>current := current st @ [s], word_count := max_words\<rparr>)) \<and>
         (\<forall>st'. step min_words max_words s st = Inr st' \<longrightarrow>
            st' \<noteq> st\<lparr>current := current st @ [s],
                       word_count := word_count st + int (length (split_ws s))\<rparr> \<longrightarrow>
            max_words < word_count st + int (length (split_ws s))) \<and>
         (\<forall>X. word_count st + wsum X \<le> max_words \<longrightarrow>
            pack min_words max_words X st =
              Inr (st\<lparr>current := current st @ X, word_count := word_count st + wsum X\<rparr>))"
proof -
  let ?w = "int (length (split_ws s))"
  have a: "step min_words max_words s st =
      Inr (st\<lparr>current := current st @ [s], word_count := word_count st + ?w\<rparr>)"
    if "word_count st + ?w \<le> max_words"
  proof -
    from that assms have "?w \<le> max_words" by simp
    then show ?thesis using that by (rule step_append)
  qed
  have "step min_words max_words s st =
      Inr (st\<lparr>current := current st @ [s], word_count := max_words\<rparr>)"
    if "word_count st + ?w = max_words"
    using a that by simp
  moreover have "max_words < word_count st + ?w"
    if "step min_words max_words s st = Inr st'"
      and "st' \<noteq> st\<lparr>current := current st @ [s], word_count := word_count st + ?w\<rparr>"
    for st'
  proof (rule ccontr)
    assume "\<not> max_words < word_count st + ?w"
    then have "word_count st + ?w \<le> max_words" by simp
    from a [OF this] that show False by simp
  qed
  moreover have "pack min_words max_words X st =
      Inr (st\<lparr>current := current st @ X, word_count := word_count st + wsum X\<rparr>)"
    if "word_count st + wsum X \<le> max_words" for X
    using assms that by (rule pack_fits)
  ultimately show ?thesis by blast
qed

theorem overflow_test_strict_witness:
  "0 \<le> word_count init \<and>
   word_count init + int (length (split_ws (py ''a b c.''))) = 3 \<and>
   step 1 3 (py ''a b c.'') init =
     Inr (init\<lparr>current := current init @ [py ''a b c.''], word_count := 3\<rparr>) \<and>
   word_count init + wsum [py ''a.'', py ''b c.''] \<le> 3 \<and>
   pack 1 3 [py ''a.'', py ''b c.''] init =
     Inr (init\<lparr>current := current init @ [py ''a.'', py ''b c.''],
               word_count := word_count init + wsum [py ''a.'', py ''b c.'']\<rparr>) \<and>
   chunk_text (py ''a. b c. d'') 1 3 = Inr [py ''a. b c.'', py ''d'']"
proof -
  have h: "0 \<le> word_count init" by (simp add: init_def)
  have w: "word_count init + int (length (split_ws (py ''a b c.''))) = 3" by code_simp
  have x: "word_count init + wsum [py ''a.'', py ''b c.''] \<le> 3" by code_simp
  have e: "chunk_text (py ''a. b c. d'') 1 3 = Inr [py ''a. b c.'', py ''d'']" by code_simp
  note a = overflow_test_strict [OF h, of "py ''a b c.''" 3 1, THEN conjunct1, THEN mp, OF w]
  note b = overflow_test_strict [OF h, of "py ''a b c.''" 3 1, THEN conjunct2, THEN conjunct2,
      THEN spec, THEN mp, OF x]
  show ?thesis by (intro conjI h w a x b e)
qed

text \<open>
  C7 (totality). The model of \<open>split_sentences\<close> has no error value and is a total
  function, and every sentence it returns has at least one word. For every text and every
  valid configuration \<open>chunk_text\<close> returns a chunk list (the only exception of the code,
  the \<^verbatim>\<open>ValueError\<close> of \<^verbatim>\<open>range\<close> for a zero step, is not raised), and every chunk
  is non-empty and has no whitespace at its ends.
\<close>

theorem chunk_text_total:
  assumes "1 \<le> min_words" and "min_words \<le> max_words"
  shows "(\<forall>s\<in>set (split_sentences text). split_ws s \<noteq> []) \<and>
         (\<exists>cs. chunk_text text min_words max_words = Inr cs \<and>
            (\<forall>c\<in>set cs. c \<noteq> [] \<and> strip c = c))"
proof -
  from assms have m: "0 < max_words" by simp
  have w: "\<forall>s\<in>set (split_sentences text). split_ws s \<noteq> []"
    using split_sentences_good by (rule good_seq_words)
  from chunk_sentences_well_formed [OF m w, of min_words] w
  show ?thesis by (simp add: chunk_text_def trimmed_def)
qed

theorem chunk_text_total_witness:
  "(1::int) \<le> 1 \<and>
   (\<exists>cs. chunk_text (py ''A. B. C.'') 1 1 = Inr cs \<and>
            (\<forall>c\<in>set cs. c \<noteq> [] \<and> strip c = c)) \<and>
   chunk_text (py ''A. B. C.'') 1 1 = Inr [py ''A.'', py ''B.'', py ''C.'']"
proof -
  have h: "(1::int) \<le> 1" by simp
  have e: "chunk_text (py ''A. B. C.'') 1 1 = Inr [py ''A.'', py ''B.'', py ''C.'']"
    by code_simp
  note a = chunk_text_total [OF h h, of "py ''A. B. C.''", THEN conjunct2]
  show ?thesis by (intro conjI h a e)
qed

text \<open>
  C9 (empty input). The normalised text is empty exactly when the text consists of
  whitespace only (the empty text included), and then \<open>chunk_text\<close> returns the empty
  chunk list, for every valid configuration.
\<close>

theorem chunk_text_blank:
  assumes "1 \<le> min_words" and "min_words \<le> max_words"
  shows "(re_sub_ws (strip text) = [] \<longleftrightarrow> (\<forall>c\<in>set text. isspace c)) \<and>
         (re_sub_ws (strip text) = [] \<longrightarrow> chunk_text text min_words max_words = Inr [])"
proof -
  have "chunk_text text min_words max_words = Inr []" if "re_sub_ws (strip text) = []"
    using that by (simp add: chunk_text_def split_sentences_def chunk_sentences_def init_def)
  then show ?thesis by (simp add: normalised_Nil_iff split_ws_Nil_iff)
qed

theorem chunk_text_blank_witness:
  "(1::int) \<le> 120 \<and> (120::int) \<le> 160 \<and>
   re_sub_ws (strip [32, 9, 10, 32]) = [] \<and>
   chunk_text [32, 9, 10, 32] 120 160 = Inr [] \<and>
   chunk_text [] 120 160 = Inr []"
proof -
  have h1: "(1::int) \<le> 120" and h2: "(120::int) \<le> 160" by simp_all
  have e: "re_sub_ws (strip [32, 9, 10, 32]) = []" by code_simp
  have e2: "chunk_text [] 120 160 = Inr []" by code_simp
  note a = chunk_text_blank [OF h1 h2, of "[32, 9, 10, 32]", THEN conjunct2, THEN mp, OF e]
  show ?thesis by (intro conjI h1 h2 e a e2)
qed


text \<open>
  C8 (oversized output is not merged). Let \<open>s\<close> be a sentence of the text with more than
  \<open>max_words\<close> words, after the sentences \<open>pre\<close> and before the sentences \<open>post\<close>. The
  result of \<open>chunk_text\<close> is the chunks of \<open>pre\<close> packed alone (its last accumulator
  flushed), then the windows of \<open>s\<close>, which hold the words of \<open>s\<close> and nothing else, then
  the chunks of \<open>post\<close> packed alone from an empty accumulator. In one iteration: a
  non-empty accumulator becomes a chunk of its own before the windows, and the accumulator
  is empty afterwards.
\<close>

theorem oversized_not_merged:
  assumes "1 \<le> min_words" and "min_words \<le> max_words"
    and "split_sentences text = pre @ s # post"
    and "max_words < int (length (split_ws s))"
  shows "(\<exists>a b. chunk_sentences min_words max_words pre = Inr a \<and>
            chunk_sentences min_words max_words post = Inr b \<and>
            chunk_text text min_words max_words = Inr (a @ oversized_parts s max_words @ b)) \<and>
         concat (map split_ws (oversized_parts s max_words)) = split_ws s \<and>
         (\<forall>st. \<exists>st'. step min_words max_words s st = Inr st' \<and> current st' = [] \<and>
            chunks st' =
              chunks st @ (if current st \<noteq> [] then [strip (join_sp (current st))] else []) @
              oversized_parts s max_words)"
proof -
  from assms(1,2) have m: "0 < max_words" by simp
  from chunk_sentences_oversized [OF m assms(4), of min_words pre post] assms(3)
  have "\<exists>a b. chunk_sentences min_words max_words pre = Inr a \<and>
            chunk_sentences min_words max_words post = Inr b \<and>
            chunk_text text min_words max_words = Inr (a @ oversized_parts s max_words @ b)"
    by (simp add: chunk_text_def)
  with oversized_parts_words [OF m, of s] step_oversized_chunks [OF m assms(4), of min_words]
  show ?thesis by blast
qed

theorem oversized_not_merged_witness:
  "(1::int) \<le> 2 \<and> (2::int) \<le> 3 \<and>
   split_sentences (py ''a b. c d e f g. h'') = [py ''a b.''] @ py ''c d e f g.'' # [py ''h''] \<and>
   3 < int (length (split_ws (py ''c d e f g.''))) \<and>
   (\<exists>a b. chunk_sentences 2 3 [py ''a b.''] = Inr a \<and>
          chunk_sentences 2 3 [py ''h''] = Inr b \<and>
          chunk_text (py ''a b. c d e f g. h'') 2 3 =
            Inr (a @ oversized_parts (py ''c d e f g.'') 3 @ b)) \<and>
   concat (map split_ws (oversized_parts (py ''c d e f g.'') 3)) = split_ws (py ''c d e f g.'') \<and>
   chunk_text (py ''a b. c d e f g. h'') 2 3 =
     Inr [py ''a b.'', py ''c d e'', py ''f g.'', py ''h'']"
proof -
  have h1: "(1::int) \<le> 2" and h2: "(2::int) \<le> 3" by simp_all
  have h3: "split_sentences (py ''a b. c d e f g. h'') =
      [py ''a b.''] @ py ''c d e f g.'' # [py ''h'']" by code_simp
  have h4: "3 < int (length (split_ws (py ''c d e f g.'')))" by code_simp
  have e: "chunk_text (py ''a b. c d e f g. h'') 2 3 =
     Inr [py ''a b.'', py ''c d e'', py ''f g.'', py ''h'']" by code_simp
  note t = oversized_not_merged [OF h1 h2 h3 h4]
  note a = t [THEN conjunct1]
  note b = t [THEN conjunct2, THEN conjunct1]
  show ?thesis by (intro conjI h1 h2 h3 h4 a b e)
qed

text \<open>
  C5 (the sentence splitter). \<open>normalise_spec\<close> is the normalisation in the order of the
  description (collapse every run of whitespace to one space, then trim the ends); the code
  trims first and collapses then, with the same result, the words of the text joined by
  single spaces. When the normalised text is not empty, the sentences are not empty, and
  joined by single spaces they give back the normalised text, so only the separating
  whitespace is discarded; every sentence but the last ends with one of \<open>.\<close>, \<open>!\<close>, \<open>?\<close>,
  which stays attached to it; no sentence starts or ends with whitespace or has inside it
  a position after one of \<open>.\<close>, \<open>!\<close>, \<open>?\<close> that is followed by whitespace, so every such
  position of the text is a split; the last sentence needs no punctuation, and a text
  without such a position is one sentence. The sentence list is the only list with these
  properties. (An empty normalised text gives no sentence.)
\<close>

theorem split_sentences_spec:
  "re_sub_ws (strip text) = normalise_spec text \<and>
   normalise_spec text = join_sp (split_ws text) \<and>
   (normalise_spec text = [] \<longrightarrow> split_sentences text = []) \<and>
   (normalise_spec text \<noteq> [] \<longrightarrow>
      split_sentences text \<noteq> [] \<and>
      join_sp (split_sentences text) = normalise_spec text \<and>
      (\<forall>s\<in>set (butlast (split_sentences text)). is_terminal (last s)) \<and>
      (\<forall>s\<in>set (split_sentences text).
         s \<noteq> [] \<and> \<not> isspace (hd s) \<and> \<not> isspace (last s) \<and>
         (\<forall>i. Suc i < length s \<longrightarrow> \<not> (is_terminal (s ! i) \<and> isspace (s ! Suc i)))) \<and>
      ((\<forall>i. Suc i < length (normalise_spec text) \<longrightarrow>
           \<not> (is_terminal (normalise_spec text ! i) \<and> isspace (normalise_spec text ! Suc i))) \<longrightarrow>
       split_sentences text = [normalise_spec text]) \<and>
      (\<forall>X. X \<noteq> [] \<and> join_sp X = normalise_spec text \<and>
           (\<forall>s\<in>set X. s \<noteq> [] \<and> join_sp (split_ws s) = s \<and>
              (\<forall>i. Suc i < length s \<longrightarrow> \<not> (is_terminal (s ! i) \<and> isspace (s ! Suc i)))) \<and>
           (\<forall>s\<in>set (butlast X). is_terminal (last s)) \<longrightarrow>
         X = split_sentences text))"
proof -
  let ?N = "normalise_spec text"
  let ?S = "split_sentences text"
  have n1: "re_sub_ws (strip text) = ?N" by (rule normalise_spec_code)
  have n2: "?N = join_sp (split_ws text)" by (rule normalise_spec_words)
  have e: "?S = []" if "?N = []"
    using that n1 by (simp add: split_sentences_def)
  have main: "?S \<noteq> [] \<and> join_sp ?S = ?N \<and>
      (\<forall>s\<in>set (butlast ?S). is_terminal (last s)) \<and>
      (\<forall>s\<in>set ?S. s \<noteq> [] \<and> \<not> isspace (hd s) \<and> \<not> isspace (last s) \<and>
         (\<forall>i. Suc i < length s \<longrightarrow> \<not> (is_terminal (s ! i) \<and> isspace (s ! Suc i))))"
    if "?N \<noteq> []"
  proof -
    from that n2 have w: "split_ws text \<noteq> []" by auto
    note t = split_sentences_text [OF w]
    have "s \<noteq> [] \<and> \<not> isspace (hd s) \<and> \<not> isspace (last s) \<and>
         (\<forall>i. Suc i < length s \<longrightarrow> \<not> (is_terminal (s ! i) \<and> isspace (s ! Suc i)))"
      if "s \<in> set ?S" for s
    proof -
      from t(3) that have "clean s" "re_split_terminal s = [s]"
        by (simp_all add: good_seq_def single_sentence_def)
      then have "clean s" "\<not> has_boundary s" by (simp_all add: single_iff_no_boundary)
      then show ?thesis
        using clean_hd [of s] clean_last [of s] by (simp add: has_boundary_nth clean_def)
    qed
    with t show ?thesis by (simp add: n2 good_seq_def)
  qed
  have one: "?S = [?N]"
    if "?N \<noteq> []"
      and "\<forall>i. Suc i < length ?N \<longrightarrow> \<not> (is_terminal (?N ! i) \<and> isspace (?N ! Suc i))"
  proof -
    from that(2) have "\<not> has_boundary ?N" by (simp add: has_boundary_nth)
    then have "re_split_terminal ?N = [?N]" by (simp add: single_iff_no_boundary)
    with that(1) n1 show ?thesis by (simp add: split_sentences_def)
  qed
  have uniq: "X = ?S"
    if "X \<noteq> [] \<and> join_sp X = ?N \<and>
        (\<forall>s\<in>set X. s \<noteq> [] \<and> join_sp (split_ws s) = s \<and>
           (\<forall>i. Suc i < length s \<longrightarrow> \<not> (is_terminal (s ! i) \<and> isspace (s ! Suc i)))) \<and>
        (\<forall>s\<in>set (butlast X). is_terminal (last s))" for X
  proof (rule sentences_unique)
    from that show "X \<noteq> []" by simp
    from that n2 show "join_sp X = join_sp (split_ws text)" by simp
    from that show "\<forall>s\<in>set X. s \<noteq> [] \<and> join_sp (split_ws s) = s \<and> \<not> has_boundary s"
      by (simp add: has_boundary_nth)
    from that show "\<forall>s\<in>set (butlast X). is_terminal (last s)" by simp
  qed
  from n1 n2 e main one uniq show ?thesis by blast
qed

theorem split_sentences_spec_witness:
  "normalise_spec ([32, 9] @ py ''Hi  there.'' @ [10, 10] @ py ''How are you?  Fine. ok '') \<noteq> [] \<and>
   split_sentences ([32, 9] @ py ''Hi  there.'' @ [10, 10] @ py ''How are you?  Fine. ok '') \<noteq> [] \<and>
   join_sp (split_sentences ([32, 9] @ py ''Hi  there.'' @ [10, 10] @ py ''How are you?  Fine. ok '')) =
     normalise_spec ([32, 9] @ py ''Hi  there.'' @ [10, 10] @ py ''How are you?  Fine. ok '') \<and>
   normalise_spec ([32, 9] @ py ''Hi  there.'' @ [10, 10] @ py ''How are you?  Fine. ok '') =
     py ''Hi there. How are you? Fine. ok'' \<and>
   split_sentences ([32, 9] @ py ''Hi  there.'' @ [10, 10] @ py ''How are you?  Fine. ok '') =
     [py ''Hi there.'', py ''How are you?'', py ''Fine.'', py ''ok'']"
proof -
  let ?T = "[32, 9] @ py ''Hi  there.'' @ [10, 10] @ py ''How are you?  Fine. ok ''"
  have n: "normalise_spec ?T = py ''Hi there. How are you? Fine. ok''" by code_simp
  have h: "normalise_spec ?T \<noteq> []" by code_simp
  have e: "split_sentences ?T = [py ''Hi there.'', py ''How are you?'', py ''Fine.'', py ''ok'']"
    by code_simp
  note t = split_sentences_spec [of ?T, THEN conjunct2, THEN conjunct2, THEN conjunct2,
      THEN mp, OF h]
  note a = t [THEN conjunct1]
  note b = t [THEN conjunct2, THEN conjunct1]
  show ?thesis by (intro conjI h a b n e)
qed

text \<open>
  C10 (chunking a chunk again). For every text and every valid configuration,
  \<open>chunk_text\<close> returns a chunk list, and every chunk \<open>c\<close> of it is not empty, has no
  whitespace at its ends, is its words joined by single spaces, has at most \<open>max_words\<close>
  words, and is reproduced unchanged: \<open>chunk_text c\<close> returns the list of \<open>c\<close> alone.
\<close>

theorem rechunk_identity:
  assumes "1 \<le> min_words" and "min_words \<le> max_words"
  shows "\<exists>cs. chunk_text text min_words max_words = Inr cs \<and>
           (\<forall>c\<in>set cs. chunk_text c min_words max_words = Inr [c] \<and>
              c \<noteq> [] \<and> strip c = c \<and> join_sp (split_ws c) = c \<and>
              int (length (split_ws c)) \<le> max_words)"
proof -
  from assms have m: "0 < max_words" by simp
  from chunk_sentences_stable [OF m split_sentences_good, of min_words "text"] obtain cs
    where cs: "chunk_text text min_words max_words = Inr cs"
      "\<forall>c\<in>set cs. stable min_words max_words c"
    by (auto simp: chunk_text_def)
  from chunk_sentences_bounded [OF m, of min_words "split_sentences text"] cs(1)
  have b: "\<forall>c\<in>set cs. int (length (split_ws c)) \<le> max_words"
    by (auto simp: chunk_text_def)
  have "chunk_text c min_words max_words = Inr [c] \<and>
              c \<noteq> [] \<and> strip c = c \<and> join_sp (split_ws c) = c \<and>
              int (length (split_ws c)) \<le> max_words" if "c \<in> set cs" for c
  proof -
    from cs(2) that have "chunk_text c min_words max_words = Inr [c]" "clean c"
      by (simp_all add: stable_def)
    with b that show ?thesis using strip_clean [of c] by (simp add: clean_def)
  qed
  with cs(1) show ?thesis by blast
qed

theorem rechunk_identity_witness:
  "(1::int) \<le> 2 \<and> (2::int) \<le> 3 \<and>
   (\<exists>cs. chunk_text (py ''a b c d e f g. h i. j'') 2 3 = Inr cs \<and>
           (\<forall>c\<in>set cs. chunk_text c 2 3 = Inr [c] \<and>
              c \<noteq> [] \<and> strip c = c \<and> join_sp (split_ws c) = c \<and>
              int (length (split_ws c)) \<le> 3)) \<and>
   chunk_text (py ''a b c d e f g. h i. j'') 2 3 =
     Inr [py ''a b c'', py ''d e f'', py ''g.'', py ''h i. j''] \<and>
   chunk_text (py ''h i. j'') 2 3 = Inr [py ''h i. j''] \<and>
   chunk_text (py ''d e f'') 2 3 = Inr [py ''d e f'']"
proof -
  have h1: "(1::int) \<le> 2" and h2: "(2::int) \<le> 3" by simp_all
  have e: "chunk_text (py ''a b c d e f g. h i. j'') 2 3 =
     Inr [py ''a b c'', py ''d e f'', py ''g.'', py ''h i. j'']" by code_simp
  have e1: "chunk_text (py ''h i. j'') 2 3 = Inr [py ''h i. j'']" by code_simp
  have e2: "chunk_text (py ''d e f'') 2 3 = Inr [py ''d e f'']" by code_simp
  note a = rechunk_identity [OF h1 h2, of "py ''a b c d e f g. h i. j''"]
  show ?thesis by (intro conjI h1 h2 a e e1 e2)
qed

end
